theory Spec2Isabelle
  imports Main "HOL-Library.Char_ord" "HOL-Library.List_Lexorder"
begin

section \<open>Dates\<close>

text \<open>
  A JavaScript \<open>Date\<close> is its time value, the milliseconds since the epoch
  (\<open>getTime()\<close>), an integer here. A \<open>moment\<close> wraps a \<open>Date\<close> and reads and sets its
  calendar fields in the local time zone of the process. The day arithmetic is
  ECMA-262's: \<open>Day\<close>, \<open>TimeWithinDay\<close>, \<open>DayFromYear\<close>, \<open>YearFromTime\<close>,
  \<open>MonthFromTime\<close>, \<open>DateFromTime\<close>, \<open>WeekDay\<close> and \<open>MakeDay\<close>. Months are numbered from
  0, as in JavaScript and moment.

  The functions of this section and \<open>getNextOccurrence\<close>, \<open>generateRecurringEvents\<close> after
  them take the calendar fields from the time value itself: they are the code in a
  process whose zone is UTC. The section on local time gives the same code for a
  process in any zone, from these functions applied to the local time value.
\<close>

definition msPerDay :: int where
  "msPerDay = 86400000"

definition Day :: "int \<Rightarrow> int" where
  "Day t = t div msPerDay"

definition TimeWithinDay :: "int \<Rightarrow> int" where
  "TimeWithinDay t = t mod msPerDay"

definition isLeapYear :: "int \<Rightarrow> bool" where
  "isLeapYear y = ((y mod 4 = 0 \<and> y mod 100 \<noteq> 0) \<or> y mod 400 = 0)"

definition DayFromYear :: "int \<Rightarrow> int" where
  "DayFromYear y =
     365 * (y - 1970) + (y - 1969) div 4 - (y - 1901) div 100 + (y - 1601) div 400"

text \<open>
  \<open>YearFromDay d\<close> is the year \<open>y\<close> with \<open>DayFromYear y \<le> d < DayFromYear (y + 1)\<close>:
  an estimate from the mean length of a year, corrected by at most one year.
\<close>

definition YearFromDay :: "int \<Rightarrow> int" where
  "YearFromDay d =
     (let y0 = 1970 + (400 * d) div 146097
      in if d < DayFromYear y0 then y0 - 1
         else if DayFromYear (y0 + 1) \<le> d then y0 + 1
         else y0)"

definition DayWithinYear :: "int \<Rightarrow> int" where
  "DayWithinYear d = d - DayFromYear (YearFromDay d)"

text \<open>The number of days of a year before its month \<open>m\<close> (0 to 11).\<close>

definition daysBeforeMonth :: "bool \<Rightarrow> int \<Rightarrow> int" where
  "daysBeforeMonth leap m =
     (let l = (if leap then 1 else 0)
      in if m = 0 then 0
         else if m = 1 then 31
         else if m = 2 then 59 + l
         else if m = 3 then 90 + l
         else if m = 4 then 120 + l
         else if m = 5 then 151 + l
         else if m = 6 then 181 + l
         else if m = 7 then 212 + l
         else if m = 8 then 243 + l
         else if m = 9 then 273 + l
         else if m = 10 then 304 + l
         else 334 + l)"

definition MonthFromDay :: "int \<Rightarrow> int" where
  "MonthFromDay d =
     (let w = DayWithinYear d; l = (if isLeapYear (YearFromDay d) then 1 else 0)
      in if w < 31 then 0
         else if w < 59 + l then 1
         else if w < 90 + l then 2
         else if w < 120 + l then 3
         else if w < 151 + l then 4
         else if w < 181 + l then 5
         else if w < 212 + l then 6
         else if w < 243 + l then 7
         else if w < 273 + l then 8
         else if w < 304 + l then 9
         else if w < 334 + l then 10
         else 11)"

definition DateFromDay :: "int \<Rightarrow> int" where
  "DateFromDay d =
     DayWithinYear d - daysBeforeMonth (isLeapYear (YearFromDay d)) (MonthFromDay d) + 1"

text \<open>
  \<open>MakeDay year month date\<close>: the month may lie outside 0 to 11 and carries into the
  year; the date may lie outside the month and carries into the neighbouring months.
\<close>

definition MakeDay :: "int \<Rightarrow> int \<Rightarrow> int \<Rightarrow> int" where
  "MakeDay year month date =
     (let ym = year + month div 12; mn = month mod 12
      in DayFromYear ym + daysBeforeMonth (isLeapYear ym) mn + date - 1)"

definition MakeDate :: "int \<Rightarrow> int \<Rightarrow> int" where
  "MakeDate day time = day * msPerDay + time"

text \<open>
  The months counted from year 0: the day \<open>d\<close> lies in month \<open>monthIndex d mod 12\<close> of
  year \<open>monthIndex d div 12\<close>. The proofs compare dates by it.
\<close>

definition monthIndex :: "int \<Rightarrow> int" where
  "monthIndex d = 12 * YearFromDay d + MonthFromDay d"

subsection \<open>The moment operations the recurrence code calls\<close>

text \<open>moment's \<open>daysInMonth(year, month)\<close>, which accepts a month outside 0 to 11.\<close>

definition daysInMonth :: "int \<Rightarrow> int \<Rightarrow> int" where
  "daysInMonth year month =
     (let modMonth = month mod 12; y = year + (month - modMonth) div 12
      in if modMonth = 1 then (if isLeapYear y then 29 else 28)
         else 31 - ((modMonth mod 7) mod 2))"

definition m_year :: "int \<Rightarrow> int" where
  "m_year t = YearFromDay (Day t)"

definition m_month :: "int \<Rightarrow> int" where
  "m_month t = MonthFromDay (Day t)"

definition m_date :: "int \<Rightarrow> int" where
  "m_date t = DateFromDay (Day t)"

text \<open>\<open>day()\<close>: the day of the week, Sunday = 0; the epoch was a Thursday.\<close>

definition m_day :: "int \<Rightarrow> int" where
  "m_day t = (Day t + 4) mod 7"

definition add_days :: "int \<Rightarrow> int \<Rightarrow> int" where
  "add_days n t = t + n * msPerDay"

definition add_weeks :: "int \<Rightarrow> int \<Rightarrow> int" where
  "add_weeks n t = add_days (7 * n) t"

text \<open>
  \<open>month(value)\<close> (moment's \<open>setMonth\<close>): the day of the month is clamped to the length
  of the target month, then \<open>Date.setMonth(value, date)\<close> is called.
\<close>

definition set_month :: "int \<Rightarrow> int \<Rightarrow> int" where
  "set_month v t =
     MakeDate (MakeDay (m_year t) v (min (m_date t) (daysInMonth (m_year t) v)))
       (TimeWithinDay t)"

definition add_months :: "int \<Rightarrow> int \<Rightarrow> int" where
  "add_months n t = set_month (m_month t + n) t"

text \<open>moment adds years as twelve months each.\<close>

definition add_years :: "int \<Rightarrow> int \<Rightarrow> int" where
  "add_years n t = add_months (12 * n) t"

text \<open>\<open>date(value)\<close> is \<open>Date.setDate(value)\<close>: a value outside the month carries over.\<close>

definition set_date :: "int \<Rightarrow> int \<Rightarrow> int" where
  "set_date v t = MakeDate (MakeDay (m_year t) (m_month t) v) (TimeWithinDay t)"

text \<open>\<open>day(value)\<close> moves within the week: \<open>this.add(value - this.day(), 'd')\<close>.\<close>

definition set_day :: "int \<Rightarrow> int \<Rightarrow> int" where
  "set_day v t = add_days (v - m_day t) t"

text \<open>
  The last day of February in the year of \<open>t\<close>, at the time of day of \<open>t\<close>: the date
  that the theorem on the monthly pattern of the 31st speaks about.
\<close>

definition lastOfFebruary :: "int \<Rightarrow> int" where
  "lastOfFebruary t =
     MakeDate (MakeDay (m_year t) 1 (if isLeapYear (m_year t) then 29 else 28)) (TimeWithinDay t)"

section \<open>Events and recurrence patterns\<close>

datatype CalendarSourceType = SharePoint | SharePointList | SharePointCommunicationSite | Exchange

text \<open>
  \<open>ICalendarEvent\<close>. The fields \<open>id\<close> and \<open>end\<close> are written \<open>id_ev\<close> and \<open>end_ev\<close>;
  an optional field is an \<open>option\<close>; attachments are kept by name. The \<open>response\<close> and
  \<open>type\<close> of an attendee are strings at run time, and are validated as such.
\<close>

record IEventAttendee =
  att_name :: string
  email :: string
  response :: string
  att_type :: string
  isOrganizer :: "bool option"

record ICalendarEvent =
  id_ev :: string
  title :: string
  description :: string
  start :: int
  end_ev :: int
  location :: "string option"
  category :: "string option"
  isAllDay :: bool
  isRecurring :: bool
  calendarId :: string
  calendarTitle :: string
  calendarType :: CalendarSourceType
  organizer :: string
  created :: int
  modified :: int
  webUrl :: string
  color :: string
  importance :: "string option"
  sensitivity :: "string option"
  showAs :: "string option"
  attendees :: "IEventAttendee list option"
  attachments :: "string list option"
  tags :: "string list option"
  masterSeriesId :: "string option"
  isException :: "bool option"

datatype RecurrenceType = daily | weekly | monthly | yearly | weekdays | custom

record IRecurrencePattern =
  rtype :: RecurrenceType
  interval :: int
  daysOfWeek :: "int list option"
  dayOfMonth :: "int option"
  weekOfMonth :: "int option"
  monthOfYear :: "int option"
  endDate :: "int option"
  occurrences :: "int option"
  firstDayOfWeek :: "int option"

text \<open>
  JavaScript tests an optional number for truth: \<open>undefined\<close> and \<open>0\<close> are false.
  \<open>num\<close> reads the number where the test has passed.
\<close>

definition truthy :: "int option \<Rightarrow> bool" where
  "truthy v = (case v of None \<Rightarrow> False | Some n \<Rightarrow> n \<noteq> 0)"

definition num :: "int option \<Rightarrow> int" where
  "num v = (case v of None \<Rightarrow> 0 | Some n \<Rightarrow> n)"

subsection \<open>RecurrenceUtils.getNextOccurrence\<close>

text \<open>
  The \<open>weekdays\<close> case: \<open>do { next.add(1, 'day') } while (next.day() === 0 || next.day() === 6)\<close>.
\<close>

function skipWeekend :: "int \<Rightarrow> int" where
  "skipWeekend t =
     (let n = add_days 1 t
      in if m_day n = 0 \<or> m_day n = 6 then skipWeekend n else n)"
  by pat_completeness auto
termination
proof (relation "measure (\<lambda>t. nat ((8 - m_day t) mod 7))")
  show "wf (measure (\<lambda>t. nat ((8 - m_day t) mod 7)))" by simp
next
  fix t n :: int
  assume n: "n = add_days 1 t" and w: "m_day n = 0 \<or> m_day n = 6"
  have d: "Day n = Day t + 1"
    by (simp add: n Day_def add_days_def msPerDay_def)
  have "(8 - m_day n) mod 7 < (8 - m_day t) mod 7"
    using w unfolding m_day_def d by presburger
  moreover have "0 \<le> (8 - m_day n) mod 7" by simp
  ultimately show "(n, t) \<in> measure (\<lambda>t. nat ((8 - m_day t) mod 7))" by simp
qed

declare skipWeekend.simps [simp del]

text \<open>
  The third parameter of the source, \<open>baseDate\<close>, is never read by its body and is
  left out. \<open>sortedDays.find(day => day > currentDayOfWeek)\<close> is \<open>find\<close> on the sorted
  copy; \<open>sortedDays[0]\<close> is read only where the list is not empty.
\<close>

definition getNextOccurrence :: "int \<Rightarrow> IRecurrencePattern \<Rightarrow> int" where
  "getNextOccurrence currentDate pattern =
     (case rtype pattern of
        daily \<Rightarrow> add_days (interval pattern) currentDate
      | weekly \<Rightarrow>
          (case daysOfWeek pattern of
             None \<Rightarrow> add_weeks (interval pattern) currentDate
           | Some ds \<Rightarrow>
               if length ds > 0 then
                 (let currentDayOfWeek = m_day currentDate;
                      sortedDays = sort ds
                  in case find (\<lambda>day. day > currentDayOfWeek) sortedDays of
                       Some nextDay \<Rightarrow> set_day nextDay currentDate
                     | None \<Rightarrow> set_day (hd sortedDays) (add_weeks (interval pattern) currentDate))
               else add_weeks (interval pattern) currentDate)
      | monthly \<Rightarrow>
          if truthy (dayOfMonth pattern) then
            (let next = set_date (num (dayOfMonth pattern)) (add_months (interval pattern) currentDate)
             in if m_date next \<noteq> num (dayOfMonth pattern) then set_date 0 next else next)
          else add_months (interval pattern) currentDate
      | yearly \<Rightarrow>
          (let n1 = add_years (interval pattern) currentDate;
               n2 = (if truthy (monthOfYear pattern) then set_month (num (monthOfYear pattern) - 1) n1 else n1)
           in if truthy (dayOfMonth pattern) then set_date (num (dayOfMonth pattern)) n2 else n2)
      | weekdays \<Rightarrow> skipWeekend currentDate
      | custom \<Rightarrow> add_days (interval pattern) currentDate)"

subsection \<open>RecurrenceUtils.generateRecurringEvents\<close>

text \<open>
  The decimal digits of a number that is not negative, and the number as a template
  literal prints it.
\<close>

function digitsOf :: "int \<Rightarrow> string" where
  "digitsOf i =
     (if i < 10 then [char_of (48 + i)]
      else digitsOf (i div 10) @ [char_of (48 + i mod 10)])"
  by pat_completeness auto
termination
  by (relation "measure nat") auto

declare digitsOf.simps [simp del]

definition string_of_nat :: "nat \<Rightarrow> string" where
  "string_of_nat n = digitsOf (int n)"

definition string_of_int :: "int \<Rightarrow> string" where
  "string_of_int i = (if i < 0 then ''-'' @ digitsOf (- i) else digitsOf i)"

text \<open>
  The loop of \<open>generateRecurringEvents\<close>: \<open>endDate\<close> is the end of the requested window,
  \<open>eventDuration\<close> the length of the base event, \<open>currentDate\<close> the cursor and
  \<open>occurrenceCount\<close> the counter. Each turn pushes one instance, a copy of the base
  event with \<open>id\<close>, \<open>start\<close> and \<open>end\<close> replaced; the list is returned in push order.
\<close>

function generateLoop ::
  "ICalendarEvent \<Rightarrow> IRecurrencePattern \<Rightarrow> int \<Rightarrow> nat \<Rightarrow> int \<Rightarrow> int \<Rightarrow> nat \<Rightarrow> ICalendarEvent list"
where
  "generateLoop baseEvent pattern endDate' maxOccurrences eventDuration currentDate occurrenceCount =
     (if currentDate < endDate' \<and>
         occurrenceCount < maxOccurrences \<and>
         (case endDate pattern of None \<Rightarrow> True | Some e \<Rightarrow> currentDate < e) \<and>
         (\<not> truthy (occurrences pattern) \<or> int occurrenceCount < num (occurrences pattern))
      then
        baseEvent\<lparr>id_ev := id_ev baseEvent @ ''_recur_'' @ string_of_nat occurrenceCount,
                  start := currentDate,
                  end_ev := currentDate + eventDuration\<rparr>
        # generateLoop baseEvent pattern endDate' maxOccurrences eventDuration
            (getNextOccurrence currentDate pattern) (Suc occurrenceCount)
      else [])"
  by pat_completeness auto
termination
  by (relation "measure (\<lambda>(b, p, e, maxOccurrences, d, c, occurrenceCount). maxOccurrences - occurrenceCount)")
     auto

declare generateLoop.simps [simp del]

definition generateRecurringEvents ::
  "ICalendarEvent \<Rightarrow> IRecurrencePattern \<Rightarrow> int \<Rightarrow> int \<Rightarrow> nat \<Rightarrow> ICalendarEvent list"
where
  "generateRecurringEvents baseEvent pattern startDate endDate' maxOccurrences =
     (let eventDuration = end_ev baseEvent - start baseEvent;
          currentDate =
            (if start baseEvent < startDate then getNextOccurrence startDate pattern
             else start baseEvent)
      in generateLoop baseEvent pattern endDate' maxOccurrences eventDuration currentDate 0)"

subsection \<open>RecurrenceUtils.validateRecurrencePattern\<close>



section \<open>Local time\<close>

text \<open>
  A time zone is ECMA-262's \<open>LocalTZA\<close>: the offset from UTC in milliseconds,
  \<open>utcOffset\<close> in force at a UTC time and \<open>localOffset\<close> by which a local time value is
  read (for a local time that a shift skips or repeats, the offset before the shift).
  \<open>LocalTime\<close> and \<open>UTC\<close> convert between the two.
\<close>

record TimeZone =
  utcOffset :: "int \<Rightarrow> int"
  localOffset :: "int \<Rightarrow> int"

definition LocalTime :: "TimeZone \<Rightarrow> int \<Rightarrow> int" where
  "LocalTime tz t = t + utcOffset tz t"

definition UTC :: "TimeZone \<Rightarrow> int \<Rightarrow> int" where
  "UTC tz t = t - localOffset tz t"

text \<open>
  The getters of a local moment, \<open>day()\<close>, \<open>date()\<close> and \<open>month()\<close>, read the local
  time value.
\<close>

definition local_day :: "TimeZone \<Rightarrow> int \<Rightarrow> int" where
  "local_day tz t = m_day (LocalTime tz t)"

definition local_date :: "TimeZone \<Rightarrow> int \<Rightarrow> int" where
  "local_date tz t = m_date (LocalTime tz t)"

definition local_month :: "TimeZone \<Rightarrow> int \<Rightarrow> int" where
  "local_month tz t = m_month (LocalTime tz t)"

text \<open>
  \<open>date(value)\<close> is \<open>Date.prototype.setDate\<close> and \<open>month(value)\<close> ends in
  \<open>Date.prototype.setMonth\<close>: both compute the new fields from the local time value and
  convert the result back.
\<close>

definition local_set_date :: "TimeZone \<Rightarrow> int \<Rightarrow> int \<Rightarrow> int" where
  "local_set_date tz v t = UTC tz (set_date v (LocalTime tz t))"

definition local_set_month :: "TimeZone \<Rightarrow> int \<Rightarrow> int \<Rightarrow> int" where
  "local_set_month tz v t = UTC tz (set_month v (LocalTime tz t))"

text \<open>
  \<open>add(n, 'days')\<close> on a local moment sets the date to \<open>date() + n\<close>, and
  \<open>add(n, 'months')\<close> the month to \<open>month() + n\<close>; adding nothing leaves the moment as it
  is. Weeks are seven days and years twelve months. \<open>day(value)\<close> is
  \<open>this.add(value - this.day(), 'd')\<close>.
\<close>

definition local_add_days :: "TimeZone \<Rightarrow> int \<Rightarrow> int \<Rightarrow> int" where
  "local_add_days tz n t = (if n = 0 then t else local_set_date tz (local_date tz t + n) t)"

definition local_add_weeks :: "TimeZone \<Rightarrow> int \<Rightarrow> int \<Rightarrow> int" where
  "local_add_weeks tz n t = local_add_days tz (7 * n) t"

definition local_add_months :: "TimeZone \<Rightarrow> int \<Rightarrow> int \<Rightarrow> int" where
  "local_add_months tz n t = (if n = 0 then t else local_set_month tz (local_month tz t + n) t)"

definition local_add_years :: "TimeZone \<Rightarrow> int \<Rightarrow> int \<Rightarrow> int" where
  "local_add_years tz n t = local_add_months tz (12 * n) t"

definition local_set_day :: "TimeZone \<Rightarrow> int \<Rightarrow> int \<Rightarrow> int" where
  "local_set_day tz v t = local_add_days tz (v - local_day tz t) t"

subsection \<open>RecurrenceUtils.getNextOccurrence, in a zone\<close>

text \<open>
  The \<open>weekdays\<close> loop. For an arbitrary offset function nothing says that it ends, so
  its result is an option: \<open>None\<close> is the loop that runs forever.
\<close>

partial_function (option) skipWeekend_local :: "TimeZone \<Rightarrow> int \<Rightarrow> int option" where
  "skipWeekend_local tz t =
     (let n = local_add_days tz 1 t
      in if local_day tz n = 0 \<or> local_day tz n = 6 then skipWeekend_local tz n else Some n)"

definition getNextOccurrence_local :: "TimeZone \<Rightarrow> int \<Rightarrow> IRecurrencePattern \<Rightarrow> int option" where
  "getNextOccurrence_local tz currentDate pattern =
     (case rtype pattern of
        daily \<Rightarrow> Some (local_add_days tz (interval pattern) currentDate)
      | weekly \<Rightarrow>
          (case daysOfWeek pattern of
             None \<Rightarrow> Some (local_add_weeks tz (interval pattern) currentDate)
           | Some ds \<Rightarrow>
               if length ds > 0 then
                 (let currentDayOfWeek = local_day tz currentDate;
                      sortedDays = sort ds
                  in case find (\<lambda>day. day > currentDayOfWeek) sortedDays of
                       Some nextDay \<Rightarrow> Some (local_set_day tz nextDay currentDate)
                     | None \<Rightarrow>
                         Some (local_set_day tz (hd sortedDays)
                                 (local_add_weeks tz (interval pattern) currentDate)))
               else Some (local_add_weeks tz (interval pattern) currentDate))
      | monthly \<Rightarrow>
          if truthy (dayOfMonth pattern) then
            (let next = local_set_date tz (num (dayOfMonth pattern))
                          (local_add_months tz (interval pattern) currentDate)
             in if local_date tz next \<noteq> num (dayOfMonth pattern)
                then Some (local_set_date tz 0 next) else Some next)
          else Some (local_add_months tz (interval pattern) currentDate)
      | yearly \<Rightarrow>
          (let n1 = local_add_years tz (interval pattern) currentDate;
               n2 = (if truthy (monthOfYear pattern)
                     then local_set_month tz (num (monthOfYear pattern) - 1) n1 else n1)
           in if truthy (dayOfMonth pattern)
              then Some (local_set_date tz (num (dayOfMonth pattern)) n2) else Some n2)
      | weekdays \<Rightarrow> skipWeekend_local tz currentDate
      | custom \<Rightarrow> Some (local_add_days tz (interval pattern) currentDate))"

subsection \<open>RecurrenceUtils.generateRecurringEvents, in a zone\<close>

text \<open>
  The loop and the function as above, with the next occurrence computed in the zone.
  \<open>isBefore\<close> compares time values, in any zone. Where the next occurrence is not
  reached, the expansion does not return: \<open>None\<close>.
\<close>

function generateLoop_local ::
  "TimeZone \<Rightarrow> ICalendarEvent \<Rightarrow> IRecurrencePattern \<Rightarrow> int \<Rightarrow> nat \<Rightarrow> int \<Rightarrow> int \<Rightarrow> nat
     \<Rightarrow> ICalendarEvent list option"
where
  "generateLoop_local tz baseEvent pattern endDate' maxOccurrences eventDuration currentDate
       occurrenceCount =
     (if currentDate < endDate' \<and>
         occurrenceCount < maxOccurrences \<and>
         (case endDate pattern of None \<Rightarrow> True | Some e \<Rightarrow> currentDate < e) \<and>
         (\<not> truthy (occurrences pattern) \<or> int occurrenceCount < num (occurrences pattern))
      then
        (case getNextOccurrence_local tz currentDate pattern of
           None \<Rightarrow> None
         | Some next \<Rightarrow>
             (case generateLoop_local tz baseEvent pattern endDate' maxOccurrences eventDuration
                     next (Suc occurrenceCount) of
                None \<Rightarrow> None
              | Some events \<Rightarrow>
                  Some (baseEvent\<lparr>id_ev := id_ev baseEvent @ ''_recur_'' @ string_of_nat occurrenceCount,
                                   start := currentDate,
                                   end_ev := currentDate + eventDuration\<rparr> # events)))
      else Some [])"
  by pat_completeness auto
termination
  by (relation "measure (\<lambda>(tz, b, p, e, maxOccurrences, d, c, occurrenceCount).
                  maxOccurrences - occurrenceCount)")
     auto

declare generateLoop_local.simps [simp del]

definition generateRecurringEvents_local ::
  "TimeZone \<Rightarrow> ICalendarEvent \<Rightarrow> IRecurrencePattern \<Rightarrow> int \<Rightarrow> int \<Rightarrow> nat
     \<Rightarrow> ICalendarEvent list option"
where
  "generateRecurringEvents_local tz baseEvent pattern startDate endDate' maxOccurrences =
     (let eventDuration = end_ev baseEvent - start baseEvent
      in if start baseEvent < startDate
         then (case getNextOccurrence_local tz startDate pattern of
                 None \<Rightarrow> None
               | Some currentDate \<Rightarrow>
                   generateLoop_local tz baseEvent pattern endDate' maxOccurrences eventDuration
                     currentDate 0)
         else generateLoop_local tz baseEvent pattern endDate' maxOccurrences eventDuration
                (start baseEvent) 0)"

section \<open>CacheService\<close>

text \<open>
  The cache is a \<open>Map\<close> from keys to items; every reading of the clock (\<open>Date.now()\<close>)
  is a parameter of the operation that makes it. A TTL in minutes is optional;
  \<open>ttlMinutes ? ttlMinutes * 60 * 1000 : this.defaultTtl\<close> takes the default for a
  missing TTL and for 0.
\<close>

record 'v ICacheItem =
  data :: 'v
  timestamp :: int
  expiry :: int

record 'v CacheService =
  cache :: "string \<rightharpoonup> 'v ICacheItem"
  defaultTtl :: int

definition CACHE_DURATION_MINUTES :: int where
  "CACHE_DURATION_MINUTES = 15"

definition newCacheService :: "'v CacheService" where
  "newCacheService = \<lparr>cache = Map.empty, defaultTtl = CACHE_DURATION_MINUTES * 60 * 1000\<rparr>"

definition cleanupExpired :: "int \<Rightarrow> 'v CacheService \<Rightarrow> 'v CacheService" where
  "cleanupExpired now cs =
     cs\<lparr>cache := (\<lambda>key. case cache cs key of
                            None \<Rightarrow> None
                          | Some item \<Rightarrow> if now > expiry item then None else Some item)\<rparr>"

definition ttlMillis :: "int option \<Rightarrow> 'v CacheService \<Rightarrow> int" where
  "ttlMillis ttlMinutes cs =
     (if truthy ttlMinutes then num ttlMinutes * 60 * 1000 else defaultTtl cs)"

text \<open>
  \<open>set\<close> reads the clock for the item (\<open>now\<close>) and once more in the sweep that
  follows (\<open>now'\<close>).
\<close>

definition CacheService_set ::
  "string \<Rightarrow> 'v \<Rightarrow> int option \<Rightarrow> int \<Rightarrow> int \<Rightarrow> 'v CacheService \<Rightarrow> 'v CacheService"
where
  "CacheService_set key d ttlMinutes now now' cs =
     (let ttl = ttlMillis ttlMinutes cs;
          cacheItem = \<lparr>data = d, timestamp = now, expiry = now + ttl\<rparr>
      in cleanupExpired now' (cs\<lparr>cache := (cache cs)(key \<mapsto> cacheItem)\<rparr>))"

text \<open>\<open>get\<close> returns the value, or nothing (\<open>undefined\<close>), and the cache as it leaves it.\<close>

definition CacheService_get ::
  "string \<Rightarrow> int \<Rightarrow> 'v CacheService \<Rightarrow> 'v option \<times> 'v CacheService"
where
  "CacheService_get key now cs =
     (case cache cs key of
        None \<Rightarrow> (None, cs)
      | Some item \<Rightarrow>
          if now > expiry item then (None, cs\<lparr>cache := (cache cs)(key := None)\<rparr>)
          else (Some (data item), cs))"

section \<open>CalendarService: conflicts\<close>

definition calculateEventOverlap :: "ICalendarEvent \<Rightarrow> ICalendarEvent \<Rightarrow> int" where
  "calculateEventOverlap event1 event2 =
     (let start1 = start event1; end1 = end_ev event1;
          start2 = start event2; end2 = end_ev event2
      in if end1 \<le> start2 \<or> end2 \<le> start1 then 0
         else (let overlapStart = max start1 start2;
                   overlapEnd = min end1 end2;
                   overlapMs = overlapEnd - overlapStart
               in max 0 (overlapMs div (1000 * 60))))"

record Conflict =
  event1 :: ICalendarEvent
  event2 :: ICalendarEvent
  overlapMinutes :: int

text \<open>The inner loop of \<open>getEventConflicts\<close>: \<open>event1\<close> against every later event.\<close>

fun conflictsWith :: "ICalendarEvent \<Rightarrow> ICalendarEvent list \<Rightarrow> Conflict list" where
  "conflictsWith e1 [] = []"
| "conflictsWith e1 (e2 # rest) =
     (if isAllDay e1 \<or> isAllDay e2 then conflictsWith e1 rest
      else (let overlap = calculateEventOverlap e1 e2
            in if overlap > 0
               then \<lparr>event1 = e1, event2 = e2, overlapMinutes = overlap\<rparr> # conflictsWith e1 rest
               else conflictsWith e1 rest))"

text \<open>The outer loop: every event against the events after it.\<close>

fun conflictPairs :: "ICalendarEvent list \<Rightarrow> Conflict list" where
  "conflictPairs [] = []"
| "conflictPairs (e1 # rest) = conflictsWith e1 rest @ conflictPairs rest"

text \<open>
  \<open>getEventConflicts\<close> awaits \<open>getEventsForDateRange\<close>; \<open>rangeResult\<close> is what that call
  gave: the events, or the error it threw, which the \<open>catch\<close> turns into no conflicts.
\<close>

definition getEventConflicts :: "string + ICalendarEvent list \<Rightarrow> Conflict list" where
  "getEventConflicts rangeResult =
     (case rangeResult of Inl error \<Rightarrow> [] | Inr events \<Rightarrow> conflictPairs events)"

section \<open>Strings\<close>

text \<open>
  Strings are lists of 8-bit characters: the texts whose code units are all below 256
  (Latin-1). On these \<open>toLowerCase\<close> folds \<open>A\<close> to \<open>Z\<close> and the capitals U+00C0 to U+00DE
  (U+00D7, the multiplication sign, is none), and \<open>trim\<close> removes the white space and line
  terminators U+0009 to U+000D, U+0020 and U+00A0, the same characters that \<open>\s\<close> matches
  in a regular expression. \<open>includes\<close> tests for a substring, \<open>join\<close> is
  \<open>Array.prototype.join\<close>.
\<close>

definition toLowerCaseChar :: "char \<Rightarrow> char" where
  "toLowerCaseChar c =
     (let n = (of_char c :: nat)
      in if (65 \<le> n \<and> n \<le> 90) \<or> (192 \<le> n \<and> n \<le> 222 \<and> n \<noteq> 215)
         then char_of (n + 32) else c)"

definition toLowerCase :: "string \<Rightarrow> string" where
  "toLowerCase s = map toLowerCaseChar s"

definition isWhiteSpace :: "char \<Rightarrow> bool" where
  "isWhiteSpace c = ((of_char c :: nat) \<in> {9, 10, 11, 12, 13, 32, 160})"

definition trim :: "string \<Rightarrow> string" where
  "trim s = rev (dropWhile isWhiteSpace (rev (dropWhile isWhiteSpace s)))"

fun startsWith :: "string \<Rightarrow> string \<Rightarrow> bool" where
  "startsWith s [] = True"
| "startsWith [] (c # cs) = False"
| "startsWith (x # xs) (c # cs) = (x = c \<and> startsWith xs cs)"

fun includes_str :: "string \<Rightarrow> string \<Rightarrow> bool" where
  "includes_str [] sub = (sub = [])"
| "includes_str (x # xs) sub = (startsWith (x # xs) sub \<or> includes_str xs sub)"

fun join :: "string \<Rightarrow> string list \<Rightarrow> string" where
  "join sep [] = []"
| "join sep [x] = x"
| "join sep (x # y # ys) = x @ sep @ join sep (y # ys)"

section \<open>Sorting\<close>

text \<open>
  \<open>Array.prototype.sort\<close> with a comparator is stable (ECMAScript 2019). For the
  comparators of this code, which order the elements into a total preorder, its result is
  the stable sort, computed here by insertion: an element goes before the first element
  that it does not compare greater than.
\<close>

fun insort_by :: "('a \<Rightarrow> 'a \<Rightarrow> int) \<Rightarrow> 'a \<Rightarrow> 'a list \<Rightarrow> 'a list" where
  "insort_by cmp x [] = [x]"
| "insort_by cmp x (y # ys) = (if cmp x y \<le> 0 then x # y # ys else y # insort_by cmp x ys)"

definition sort_by :: "('a \<Rightarrow> 'a \<Rightarrow> int) \<Rightarrow> 'a list \<Rightarrow> 'a list" where
  "sort_by cmp xs = foldr (insort_by cmp) xs []"

text \<open>\<open>(a, b) => a.start.getTime() - b.start.getTime()\<close>\<close>

definition compareStart :: "ICalendarEvent \<Rightarrow> ICalendarEvent \<Rightarrow> int" where
  "compareStart a b = start a - start b"

section \<open>CalendarService: the aggregator\<close>

record ICalendarSource =
  src_id :: string
  src_title :: string
  src_description :: string
  src_type :: CalendarSourceType
  src_url :: string
  siteTitle :: string
  siteUrl :: string
  src_color :: string
  isEnabled :: bool
  itemCount :: "int option"
  lastModified :: "string option"
  canEdit :: "bool option"
  canShare :: "bool option"

text \<open>
  What the aggregator calls and this development does not look into: the two backend
  services (a call gives the events or the error it throws), the \<open>URL\<close> constructor
  behind \<open>isValidUrl\<close> and \<open>ColorUtils.generateColorFromString\<close>. The theorems hold
  whatever these are.
\<close>

record Services =
  sp_getEventsFromCalendar :: "ICalendarSource \<Rightarrow> nat \<Rightarrow> string + ICalendarEvent list"
  ex_getEventsFromCalendar :: "ICalendarSource \<Rightarrow> nat \<Rightarrow> string + ICalendarEvent list"
  sp_searchEvents :: "ICalendarSource list \<Rightarrow> string \<Rightarrow> nat \<Rightarrow> string + ICalendarEvent list"
  ex_searchEvents :: "ICalendarSource list \<Rightarrow> string \<Rightarrow> nat \<Rightarrow> string + ICalendarEvent list"
  URL_parses :: "string \<Rightarrow> bool"
  generateColorFromString :: "string \<Rightarrow> string"

subsection \<open>Cache keys\<close>

definition CACHE_KEY_PREFIX :: string where
  "CACHE_KEY_PREFIX = ''multi-calendar-aggregator-''"

definition CACHE_EVENTS_KEY :: string where
  "CACHE_EVENTS_KEY = ''calendar-events''"

definition generateKey :: "string \<Rightarrow> string \<Rightarrow> string" where
  "generateKey prefix identifier = CACHE_KEY_PREFIX @ prefix @ ''-'' @ identifier"

definition getCachedEvents ::
  "string \<Rightarrow> int \<Rightarrow> 'v CacheService \<Rightarrow> 'v option \<times> 'v CacheService" where
  "getCachedEvents calId now cs =
     CacheService_get (generateKey CACHE_EVENTS_KEY calId) now cs"

definition setCachedEvents ::
  "string \<Rightarrow> 'v \<Rightarrow> int option \<Rightarrow> int \<Rightarrow> int \<Rightarrow> 'v CacheService \<Rightarrow> 'v CacheService" where
  "setCachedEvents calId events ttlMinutes now now' cs =
     CacheService_set (generateKey CACHE_EVENTS_KEY calId) events ttlMinutes now now' cs"

text \<open>\<open>calendarIds.sort().join(',')\<close>: the default sort orders strings by code unit.\<close>

definition aggregatedKey :: "string list \<Rightarrow> string" where
  "aggregatedKey calendarIds =
     generateKey CACHE_EVENTS_KEY (''aggregated-'' @ join '','' (sort calendarIds))"

definition getCachedAggregatedEvents ::
  "string list \<Rightarrow> int \<Rightarrow> 'v CacheService \<Rightarrow> 'v option \<times> 'v CacheService" where
  "getCachedAggregatedEvents calendarIds now cs = CacheService_get (aggregatedKey calendarIds) now cs"

definition setCachedAggregatedEvents ::
  "string list \<Rightarrow> 'v \<Rightarrow> int option \<Rightarrow> int \<Rightarrow> int \<Rightarrow> 'v CacheService \<Rightarrow> 'v CacheService" where
  "setCachedAggregatedEvents calendarIds events ttlMinutes now now' cs =
     CacheService_set (aggregatedKey calendarIds) events ttlMinutes now now' cs"

definition searchKey :: "string \<Rightarrow> string" where
  "searchKey query = generateKey ''search'' (trim (toLowerCase query))"

definition getCachedSearchResults ::
  "string \<Rightarrow> int \<Rightarrow> 'v CacheService \<Rightarrow> 'v option \<times> 'v CacheService" where
  "getCachedSearchResults query now cs = CacheService_get (searchKey query) now cs"

definition setCachedSearchResults ::
  "string \<Rightarrow> 'v \<Rightarrow> int option \<Rightarrow> int \<Rightarrow> int \<Rightarrow> 'v CacheService \<Rightarrow> 'v CacheService" where
  "setCachedSearchResults query results ttlMinutes now now' cs =
     CacheService_set (searchKey query) results
       (if truthy ttlMinutes then ttlMinutes else Some 5) now now' cs"

subsection \<open>ValidationUtils, as far as the aggregator calls it\<close>

definition isHexDigit :: "char \<Rightarrow> bool" where
  "isHexDigit c =
     (let n = (of_char c :: nat)
      in (48 \<le> n \<and> n \<le> 57) \<or> (97 \<le> n \<and> n \<le> 102) \<or> (65 \<le> n \<and> n \<le> 70))"

text \<open>
  \<open>AppConstants.REGEX.GUID\<close>:
  \<open>/^[0-9a-f]{8}-[0-9a-f]{4}-[1-5][0-9a-f]{3}-[89ab][0-9a-f]{3}-[0-9a-f]{12}$/i\<close>
\<close>

definition REGEX_GUID_test :: "string \<Rightarrow> bool" where
  "REGEX_GUID_test s =
     (length s = 36 \<and>
      list_all isHexDigit (take 8 s) \<and> s ! 8 = CHR ''-'' \<and>
      list_all isHexDigit (take 4 (drop 9 s)) \<and> s ! 13 = CHR ''-'' \<and>
      s ! 14 \<in> set ''12345'' \<and> list_all isHexDigit (take 3 (drop 15 s)) \<and> s ! 18 = CHR ''-'' \<and>
      s ! 19 \<in> set ''89abAB'' \<and> list_all isHexDigit (take 3 (drop 20 s)) \<and> s ! 23 = CHR ''-'' \<and>
      list_all isHexDigit (drop 24 s))"

definition isValidGuid :: "string \<Rightarrow> bool" where
  "isValidGuid guid = (guid \<noteq> [] \<and> REGEX_GUID_test (trim guid))"

definition isValidUrl :: "Services \<Rightarrow> string \<Rightarrow> bool" where
  "isValidUrl env url = (url \<noteq> [] \<and> URL_parses env (trim url))"

text \<open>
  \<open>validateCalendarSource(source).isValid\<close>: no error was pushed. The type of a source is
  one of the enumeration's strings, never empty, so \<open>!source.type\<close> pushes none.
\<close>

definition validateCalendarSource_isValid :: "Services \<Rightarrow> ICalendarSource \<Rightarrow> bool" where
  "validateCalendarSource_isValid env source =
     (\<not> (src_id source = [] \<or> \<not> isValidGuid (src_id source)) \<and>
      \<not> (src_title source = [] \<or> length (trim (src_title source)) = 0) \<and>
      \<not> (siteUrl source = [] \<or> \<not> isValidUrl env (siteUrl source)))"

text \<open>
  \<open>AppConstants.REGEX.EMAIL\<close>: \<open>/^[^\s@]+@[^\s@]+\.[^\s@]+$/\<close>. A match has exactly one
  \<open>@\<close>, no white space, something before the \<open>@\<close>, and after it a dot that is neither
  the first nor the last character.
\<close>

definition REGEX_EMAIL_test :: "string \<Rightarrow> bool" where
  "REGEX_EMAIL_test s =
     (let user = takeWhile (\<lambda>c. c \<noteq> CHR ''@'') s;
          rest = dropWhile (\<lambda>c. c \<noteq> CHR ''@'') s
      in user \<noteq> [] \<and> rest \<noteq> [] \<and> CHR ''@'' \<notin> set (tl rest) \<and>
         CHR ''.'' \<in> set (butlast (tl (tl rest))) \<and>
         list_all (\<lambda>c. \<not> isWhiteSpace c) s)"

definition isValidEmail :: "string \<Rightarrow> bool" where
  "isValidEmail e = (e \<noteq> [] \<and> REGEX_EMAIL_test (trim e))"

definition EVENT_TITLE_MAX_LENGTH :: nat where
  "EVENT_TITLE_MAX_LENGTH = 50"

text \<open>The errors that \<open>validateCalendarEvent\<close> pushes for one attendee.\<close>

definition attendeeErrors :: "IEventAttendee \<Rightarrow> string list" where
  "attendeeErrors attendee =
     (if email attendee = [] \<or> \<not> isValidEmail (email attendee)
      then [''Invalid attendee email address''] else []) @
     (if response attendee \<noteq> [] \<and>
         response attendee \<notin> set [''accepted'', ''declined'', ''tentative'', ''none'']
      then [''Invalid attendee response status''] else []) @
     (if att_type attendee \<noteq> [] \<and>
         att_type attendee \<notin> set [''required'', ''optional'', ''resource'']
      then [''Invalid attendee type''] else [])"

text \<open>
  The errors of \<open>validateCalendarEvent(event)\<close>, by their messages; its warnings decide
  nothing and are left out. A date is a time value here, never missing and never
  \<open>NaN\<close>, so the checks for a missing or an invalid date push nothing.
\<close>

definition validateCalendarEvent_errors :: "ICalendarEvent \<Rightarrow> string list" where
  "validateCalendarEvent_errors event =
     (if title event = [] \<or> length (trim (title event)) = 0
      then [''Event title is required''] else []) @
     (if start event \<ge> end_ev event
      then [''End date must be after start date''] else []) @
     (if title event \<noteq> [] \<and> length (title event) > EVENT_TITLE_MAX_LENGTH
      then [''Title exceeds maximum length''] else []) @
     (if calendarId event = [] \<or> \<not> isValidGuid (calendarId event)
      then [''Invalid calendar ID format''] else []) @
     (case attendees event of
        None \<Rightarrow> []
      | Some atts \<Rightarrow> concat (map attendeeErrors atts)) @
     (case importance event of
        None \<Rightarrow> []
      | Some i \<Rightarrow>
          if i \<noteq> [] \<and> toLowerCase i \<notin> set [''low'', ''normal'', ''high'']
          then [''Invalid importance level''] else []) @
     (case sensitivity event of
        None \<Rightarrow> []
      | Some v \<Rightarrow>
          if v \<noteq> [] \<and> toLowerCase v \<notin> set [''normal'', ''personal'', ''private'', ''confidential'']
          then [''Invalid sensitivity level''] else [])"

definition validateCalendarEvent_isValid :: "ICalendarEvent \<Rightarrow> bool" where
  "validateCalendarEvent_isValid event = (length (validateCalendarEvent_errors event) = 0)"

text \<open>\<open>validateSearchQuery(query).isValid\<close>: the query and its trimmed form are not empty.\<close>

definition validateSearchQuery_isValid :: "string \<Rightarrow> bool" where
  "validateSearchQuery_isValid query = (\<not> query = [] \<and> \<not> length (trim query) = 0)"

subsection \<open>CalendarService.removeDuplicateEvents\<close>

definition dedupKey :: "ICalendarEvent \<Rightarrow> string" where
  "dedupKey event =
     toLowerCase (title event @ ''_'' @ string_of_int (start event) @ ''_'' @ organizer event)"

text \<open>The loop over the events, with the set \<open>seen\<close> of the keys met so far.\<close>

fun removeDuplicatesFrom :: "string set \<Rightarrow> ICalendarEvent list \<Rightarrow> ICalendarEvent list" where
  "removeDuplicatesFrom seen [] = []"
| "removeDuplicatesFrom seen (event # events) =
     (let key = dedupKey event
      in if key \<notin> seen then event # removeDuplicatesFrom (insert key seen) events
         else removeDuplicatesFrom seen events)"

definition removeDuplicateEvents :: "ICalendarEvent list \<Rightarrow> ICalendarEvent list" where
  "removeDuplicateEvents events = removeDuplicatesFrom {} events"

subsection \<open>CalendarService.getEventsFromSource\<close>

text \<open>
  \<open>validateAndEnhanceEvents\<close> keeps the events that \<open>validateCalendarEvent\<close> accepts, in
  their order, each with the colour, title and type of the source filled in.
\<close>

definition validateAndEnhanceEvents ::
  "Services \<Rightarrow> ICalendarEvent list \<Rightarrow> ICalendarSource \<Rightarrow> ICalendarEvent list" where
  "validateAndEnhanceEvents env events source =
     map (\<lambda>event. event\<lparr>color := (if color event \<noteq> [] then color event
                                   else if src_color source \<noteq> [] then src_color source
                                   else generateColorFromString env (src_title source)),
                         calendarTitle := src_title source,
                         calendarType := src_type source\<rparr>)
         (filter validateCalendarEvent_isValid events)"

text \<open>
  The aggregator starts the fetches of all its sources before any of them completes. A
  fetch runs without interruption up to its first \<open>await\<close>, the call of the backend
  service: \<open>getEventsFromSource_begin\<close>, at time \<open>now\<close>. There it has either settled
  (the source is invalid, the cache answered, the type is unsupported) or awaits the
  backend, whose answer is recorded. \<open>getEventsFromSource_end\<close> is the rest of the call,
  at time \<open>later\<close>. A thrown error is \<open>Inl\<close> with its message.
\<close>

datatype Fetch =
  Settled "string + ICalendarEvent list"
| Awaited "string + ICalendarEvent list"

definition getEventsFromSource_begin ::
  "Services \<Rightarrow> int \<Rightarrow> ICalendarSource \<Rightarrow> nat \<Rightarrow> ICalendarEvent list CacheService
     \<Rightarrow> Fetch \<times> ICalendarEvent list CacheService"
where
  "getEventsFromSource_begin env now source maxEvents cs =
     (if \<not> validateCalendarSource_isValid env source
      then (Settled (Inl ''Invalid calendar source''), cs)
      else (case getCachedEvents (src_id source) now cs of
              (cachedEvents, cs1) \<Rightarrow>
                if cachedEvents \<noteq> None \<and> length (the cachedEvents) \<le> maxEvents
                then (Settled (Inr (take maxEvents (the cachedEvents))), cs1)
                else (case src_type source of
                        SharePoint \<Rightarrow> (Awaited (sp_getEventsFromCalendar env source maxEvents), cs1)
                      | Exchange \<Rightarrow> (Awaited (ex_getEventsFromCalendar env source maxEvents), cs1)
                      | _ \<Rightarrow> (Settled (Inl ''Unsupported calendar source type''), cs1))))"

definition getEventsFromSource_end ::
  "Services \<Rightarrow> int \<Rightarrow> ICalendarSource \<Rightarrow> nat \<Rightarrow> Fetch \<Rightarrow> ICalendarEvent list CacheService
     \<Rightarrow> (string + ICalendarEvent list) \<times> ICalendarEvent list CacheService"
where
  "getEventsFromSource_end env later source maxEvents fetch cs =
     (case fetch of
        Settled result \<Rightarrow> (result, cs)
      | Awaited (Inl error) \<Rightarrow> (Inl error, cs)
      | Awaited (Inr raw) \<Rightarrow>
          (let events = validateAndEnhanceEvents env raw source
           in (Inr (take maxEvents events),
               setCachedEvents (src_id source) events (Some CACHE_DURATION_MINUTES) later later cs)))"

definition getEventsFromSource ::
  "Services \<Rightarrow> int \<Rightarrow> int \<Rightarrow> ICalendarSource \<Rightarrow> nat \<Rightarrow> ICalendarEvent list CacheService
     \<Rightarrow> (string + ICalendarEvent list) \<times> ICalendarEvent list CacheService"
where
  "getEventsFromSource env now later source maxEvents cs =
     (case getEventsFromSource_begin env now source maxEvents cs of
        (fetch, cs1) \<Rightarrow> getEventsFromSource_end env later source maxEvents fetch cs1)"

subsection \<open>CalendarService.getEventsFromSources\<close>

text \<open>
  \<open>sources.map(async (source) => ...)\<close> begins every fetch in the order of the sources;
  \<open>Promise.all\<close> gives their results in the same order, whatever the order in which
  they complete (taken here to be the order of the sources as well: it only decides
  the order of writes to the cache). A fetch that throws is caught and gives \<open>[]\<close>.
\<close>

fun beginAll ::
  "Services \<Rightarrow> int \<Rightarrow> nat \<Rightarrow> ICalendarSource list \<Rightarrow> ICalendarEvent list CacheService
     \<Rightarrow> Fetch list \<times> ICalendarEvent list CacheService"
where
  "beginAll env now k [] cs = ([], cs)"
| "beginAll env now k (source # sources) cs =
     (case getEventsFromSource_begin env now source k cs of
        (fetch, cs1) \<Rightarrow>
          (case beginAll env now k sources cs1 of
             (fetches, cs2) \<Rightarrow> (fetch # fetches, cs2)))"

fun endAll ::
  "Services \<Rightarrow> int \<Rightarrow> nat \<Rightarrow> (ICalendarSource \<times> Fetch) list \<Rightarrow> ICalendarEvent list CacheService
     \<Rightarrow> (string + ICalendarEvent list) list \<times> ICalendarEvent list CacheService"
where
  "endAll env later k [] cs = ([], cs)"
| "endAll env later k ((source, fetch) # rest) cs =
     (case getEventsFromSource_end env later source k fetch cs of
        (result, cs1) \<Rightarrow>
          (case endAll env later k rest cs1 of
             (results, cs2) \<Rightarrow> (result # results, cs2)))"

text \<open>\<open>Math.ceil(maxEvents / sources.length)\<close>, computed only where there is a source.\<close>

definition perSourceLimit :: "nat \<Rightarrow> nat \<Rightarrow> nat" where
  "perSourceLimit maxEvents n = (maxEvents + n - 1) div n"

definition caughtEvents :: "string + ICalendarEvent list \<Rightarrow> ICalendarEvent list" where
  "caughtEvents result = (case result of Inl error \<Rightarrow> [] | Inr events \<Rightarrow> events)"

definition getEventsFromSources ::
  "Services \<Rightarrow> int \<Rightarrow> int \<Rightarrow> ICalendarSource list \<Rightarrow> nat \<Rightarrow> ICalendarEvent list CacheService
     \<Rightarrow> (string + ICalendarEvent list) \<times> ICalendarEvent list CacheService"
where
  "getEventsFromSources env now later sources maxEvents cs =
     (let sourceIds = map src_id sources
      in case getCachedAggregatedEvents sourceIds now cs of
           (cachedEvents, cs1) \<Rightarrow>
             if cachedEvents \<noteq> None \<and> length (the cachedEvents) \<le> maxEvents
             then (Inr (take maxEvents (the cachedEvents)), cs1)
             else (case beginAll env now (perSourceLimit maxEvents (length sources)) sources cs1 of
                     (fetches, cs2) \<Rightarrow>
                       (case endAll env later (perSourceLimit maxEvents (length sources))
                               (zip sources fetches) cs2 of
                          (results, cs3) \<Rightarrow>
                            (let allEvents = concat (map caughtEvents results);
                                 sorted = sort_by compareStart allEvents;
                                 limitedEvents = take maxEvents sorted
                             in (Inr limitedEvents,
                                 setCachedAggregatedEvents sourceIds limitedEvents
                                   (Some CACHE_DURATION_MINUTES) later later cs3)))))"

subsection \<open>CalendarService.searchEvents\<close>

text \<open>The comparator of the search results: title matches first, then by start.\<close>

definition relevance :: "string \<Rightarrow> ICalendarEvent \<Rightarrow> int" where
  "relevance query a = (if includes_str (toLowerCase (title a)) (toLowerCase query) then 1 else 0)"

definition compareRelevance :: "string \<Rightarrow> ICalendarEvent \<Rightarrow> ICalendarEvent \<Rightarrow> int" where
  "compareRelevance query a b =
     (let aRelevance = relevance query a; bRelevance = relevance query b
      in if aRelevance \<noteq> bRelevance then bRelevance - aRelevance
         else start a - start b)"

definition searchEvents ::
  "Services \<Rightarrow> int \<Rightarrow> int \<Rightarrow> ICalendarSource list \<Rightarrow> string \<Rightarrow> nat
     \<Rightarrow> ICalendarEvent list CacheService
     \<Rightarrow> (string + ICalendarEvent list) \<times> ICalendarEvent list CacheService"
where
  "searchEvents env now later sources query maxResults cs =
     (if \<not> validateSearchQuery_isValid query then (Inl ''Invalid search query'', cs)
      else (case getCachedSearchResults query now cs of
              (Some cachedResults, cs1) \<Rightarrow> (Inr (take maxResults cachedResults), cs1)
            | (None, cs1) \<Rightarrow>
                (let sharePointSources = filter (\<lambda>s. src_type s = SharePoint) sources;
                     sharePointResults =
                       (if length sharePointSources > 0
                        then caughtEvents (sp_searchEvents env sharePointSources query maxResults)
                        else []);
                     exchangeSources = filter (\<lambda>s. src_type s = Exchange) sources;
                     exchangeResults =
                       (if length exchangeSources > 0
                        then caughtEvents (ex_searchEvents env exchangeSources query maxResults)
                        else []);
                     allResults = sharePointResults @ exchangeResults;
                     uniqueResults = sort_by (compareRelevance query) (removeDuplicateEvents allResults);
                     limitedResults = take maxResults uniqueResults
                 in (Inr limitedResults,
                     setCachedSearchResults query limitedResults (Some 5) later later cs1))))"

subsection \<open>Notions the theorems on the aggregator are stated with\<close>

text \<open>
  \<open>matches query a\<close>: the title of \<open>a\<close> contains the query, compared in lower case, as the
  comparator of the search decides it. \<open>mayPrecede query a b\<close>: the two-bucket order allows
  \<open>a\<close> before \<open>b\<close>: a non-matching event is not before a matching one, and within a bucket
  the earlier start comes first.
\<close>

definition matches :: "string \<Rightarrow> ICalendarEvent \<Rightarrow> bool" where
  "matches query a = includes_str (toLowerCase (title a)) (toLowerCase query)"

definition mayPrecede :: "string \<Rightarrow> ICalendarEvent \<Rightarrow> ICalendarEvent \<Rightarrow> bool" where
  "mayPrecede query a b =
     ((matches query b \<longrightarrow> matches query a) \<and>
      (matches query a = matches query b \<longrightarrow> start a \<le> start b))"

text \<open>
  The lookup of the aggregated events does not answer the call: nothing is cached under
  the key of these sources (or it has expired), or the cached list is longer than
  \<open>maxEvents\<close>. The call then queries its sources.
\<close>

definition cacheMiss :: "ICalendarSource list \<Rightarrow> nat \<Rightarrow> int \<Rightarrow> ICalendarEvent list CacheService \<Rightarrow> bool" where
  "cacheMiss sources maxEvents now cs =
     (case fst (getCachedAggregatedEvents (map src_id sources) now cs) of
        None \<Rightarrow> True | Some cachedEvents \<Rightarrow> \<not> length cachedEvents \<le> maxEvents)"

text \<open>
  What one source adds to the merge: the events its fetch returns, read against the
  cache as the aggregate call finds it, or nothing when the fetch throws.
\<close>

definition contribution ::
  "Services \<Rightarrow> int \<Rightarrow> int \<Rightarrow> nat \<Rightarrow> ICalendarEvent list CacheService \<Rightarrow> ICalendarSource
     \<Rightarrow> ICalendarEvent list" where
  "contribution env now later k cs source =
     caughtEvents (fst (getEventsFromSource env now later source k cs))"

text \<open>
  \<open>sameTimeOn tz t k\<close> is the time \<open>k\<close> local days after \<open>t\<close> at the local time of day of
  \<open>t\<close>. \<open>keepsLocalTime tz t k\<close>: that local time exists on that day, it is read back as
  it was written; no clock shift skips it.
\<close>

definition sameTimeOn :: "TimeZone \<Rightarrow> int \<Rightarrow> int \<Rightarrow> int" where
  "sameTimeOn tz t k = UTC tz (LocalTime tz t + k * msPerDay)"

definition keepsLocalTime :: "TimeZone \<Rightarrow> int \<Rightarrow> int \<Rightarrow> bool" where
  "keepsLocalTime tz t k = (LocalTime tz (sameTimeOn tz t k) = LocalTime tz t + k * msPerDay)"

section \<open>Sample data\<close>

text \<open>Concrete inputs at which the theorems below are exercised.\<close>

definition sampleEvent :: ICalendarEvent where
  "sampleEvent =
     \<lparr>id_ev = ''SP_cal_7'', title = ''Sync'', description = '''',
      start = MakeDate (MakeDay 2024 0 1) (9 * 3600000),
      end_ev = MakeDate (MakeDay 2024 0 1) (10 * 3600000),
      location = None, category = None, isAllDay = False, isRecurring = True,
      calendarId = ''11111111-1111-4111-8111-111111111111'', calendarTitle = ''Team'',
      calendarType = SharePoint,
      organizer = ''ada'', created = 0, modified = 0, webUrl = '''', color = ''#0078d4'',
      importance = None, sensitivity = None, showAs = None, attendees = None,
      attachments = None, tags = None, masterSeriesId = None, isException = None\<rparr>"

definition samplePattern :: "RecurrenceType \<Rightarrow> int \<Rightarrow> IRecurrencePattern" where
  "samplePattern ty n =
     \<lparr>rtype = ty, interval = n, daysOfWeek = None, dayOfMonth = None, weekOfMonth = None,
      monthOfYear = None, endDate = None, occurrences = None, firstDayOfWeek = None\<rparr>"

definition sampleOverlapping :: ICalendarEvent where
  "sampleOverlapping =
     sampleEvent\<lparr>id_ev := ''EX_cal_9'', title := ''Review'',
       calendarId := ''22222222-2222-4222-8222-222222222222'',
       start := MakeDate (MakeDay 2024 0 1) (9 * 3600000 + 1800000),
       end_ev := MakeDate (MakeDay 2024 0 1) (10 * 3600000 + 1800000)\<rparr>"

definition sampleAllDay :: ICalendarEvent where
  "sampleAllDay =
     sampleEvent\<lparr>id_ev := ''SP_cal_8'', title := ''Holiday'', isAllDay := True,
       start := MakeDate (MakeDay 2024 0 1) 0,
       end_ev := MakeDate (MakeDay 2024 0 2) 0\<rparr>"

definition sampleJan31 :: ICalendarEvent where
  "sampleJan31 =
     sampleEvent\<lparr>start := MakeDate (MakeDay 2024 0 31) (9 * 3600000),
       end_ev := MakeDate (MakeDay 2024 0 31) (10 * 3600000)\<rparr>"

definition sampleSource :: "string \<Rightarrow> string \<Rightarrow> CalendarSourceType \<Rightarrow> ICalendarSource" where
  "sampleSource i t ty =
     \<lparr>src_id = i, src_title = t, src_description = '''', src_type = ty, src_url = '''',
      siteTitle = ''Site'', siteUrl = ''https://contoso.example/sites/team'',
      src_color = '''', isEnabled = True, itemCount = None, lastModified = None,
      canEdit = None, canShare = None\<rparr>"

definition sourceA :: ICalendarSource where
  "sourceA = sampleSource ''11111111-1111-4111-8111-111111111111'' ''Team'' SharePoint"

definition sourceB :: ICalendarSource where
  "sourceB = sampleSource ''22222222-2222-4222-8222-222222222222'' ''Board'' Exchange"

definition sourceC :: ICalendarSource where
  "sourceC = sampleSource ''33333333-3333-4333-8333-333333333333'' ''Room'' SharePoint"

definition sampleLater :: ICalendarEvent where
  "sampleLater =
     sampleEvent\<lparr>id_ev := ''SP_cal_11'', title := ''Planning'',
       start := MakeDate (MakeDay 2024 0 2) (9 * 3600000),
       end_ev := MakeDate (MakeDay 2024 0 2) (10 * 3600000)\<rparr>"

text \<open>
  Backends for the examples: the SharePoint service has the events \<open>sampleEvent\<close> and
  \<open>sampleLater\<close> in the calendar \<open>sourceA\<close> and fails for every other calendar; the
  Exchange service has \<open>sampleOverlapping\<close> in every calendar. A search returns
  \<open>sampleEvent\<close> and \<open>sampleAllDay\<close> from SharePoint and fails on Exchange. None returns
  more events than it is asked for. Every URL parses.
\<close>

definition sampleServices :: Services where
  "sampleServices =
     \<lparr>sp_getEventsFromCalendar =
        (\<lambda>source maxEvents. if src_id source = src_id sourceA
                              then Inr (take maxEvents [sampleEvent, sampleLater])
                              else Inl ''HTTP 503''),
      ex_getEventsFromCalendar = (\<lambda>source maxEvents. Inr (take maxEvents [sampleOverlapping])),
      sp_searchEvents =
        (\<lambda>sources query maxResults. Inr (take maxResults [sampleEvent, sampleAllDay])),
      ex_searchEvents = (\<lambda>sources query maxResults. Inl ''HTTP 503''),
      URL_parses = (\<lambda>url. True),
      generateColorFromString = (\<lambda>t. ''#0078d4'')\<rparr>"

text \<open>
  Zones for the examples. \<open>utcZone\<close> is UTC and \<open>fixedZone c\<close> a zone that never shifts.
  \<open>newYork\<close> is America/New_York under the rule in force since 2007: five hours behind
  UTC, and four during daylight saving time, which begins on the second Sunday of March
  at 02:00 local time (07:00 UTC, the clock jumps to 03:00) and ends on the first Sunday
  of November at 02:00 local time (06:00 UTC, the clock falls back to 01:00).
\<close>

definition utcZone :: TimeZone where
  "utcZone = \<lparr>utcOffset = (\<lambda>t. 0), localOffset = (\<lambda>t. 0)\<rparr>"

definition fixedZone :: "int \<Rightarrow> TimeZone" where
  "fixedZone c = \<lparr>utcOffset = (\<lambda>t. c), localOffset = (\<lambda>t. c)\<rparr>"

definition sundayOnOrAfter :: "int \<Rightarrow> int" where
  "sundayOnOrAfter d = d + (3 - d) mod 7"

definition newYork :: TimeZone where
  "newYork =
     \<lparr>utcOffset = (\<lambda>t.
        let y = YearFromDay (Day t);
            dstStart = MakeDate (sundayOnOrAfter (MakeDay y 2 8)) (7 * 3600000);
            dstEnd = MakeDate (sundayOnOrAfter (MakeDay y 10 1)) (6 * 3600000)
        in if dstStart \<le> t \<and> t < dstEnd then - (4 * 3600000) else - (5 * 3600000)),
      localOffset = (\<lambda>t.
        let y = YearFromDay (Day t);
            dstStart = MakeDate (sundayOnOrAfter (MakeDay y 2 8)) (3 * 3600000);
            dstEnd = MakeDate (sundayOnOrAfter (MakeDay y 10 1)) (2 * 3600000)
        in if dstStart \<le> t \<and> t < dstEnd then - (4 * 3600000) else - (5 * 3600000))\<rparr>"

text \<open>A meeting on Monday 4 March 2024 from 09:00 to 10:00 in New York (14:00 UTC).\<close>

definition sampleMarch :: ICalendarEvent where
  "sampleMarch =
     sampleEvent\<lparr>id_ev := ''SP_cal_12'',
       start := MakeDate (MakeDay 2024 2 4) (14 * 3600000),
       end_ev := MakeDate (MakeDay 2024 2 4) (15 * 3600000)\<rparr>"

section \<open>Theorems\<close>

subsection \<open>Calendar arithmetic\<close>

lemma Day_add_days: "Day (add_days n t) = Day t + n"
  by (simp add: Day_def add_days_def msPerDay_def)

lemma m_day_add_days: "m_day (add_days n t) = (m_day t + n) mod 7"
  by (simp add: m_day_def Day_add_days mod_simps algebra_simps)


lemma add_days_less: "(add_days a t < add_days b t) = (a < b)"
  by (simp add: add_days_def msPerDay_def)

lemma add_days_0: "add_days 0 t = t"
  by (simp add: add_days_def)

lemma div_bounds:
  fixes x k :: int
  assumes "0 < k"
  shows "k * (x div k) \<le> x" and "x < k * (x div k) + k"
proof -
  have e: "k * (x div k) + x mod k = x" by simp
  have "0 \<le> x mod k" "x mod k < k" using assms by simp_all
  with e show "k * (x div k) \<le> x" and "x < k * (x div k) + k" by linarith+
qed

lemma div_unique_int:
  fixes x k q r :: int
  assumes "x = k * q + r" "0 \<le> r" "r < k"
  shows "x div k = q"
proof -
  have "x div k = (r + q * k) div k" using assms(1) by (simp add: algebra_simps)
  also have "\<dots> = q + r div k" using assms(2,3) by simp
  also have "r div k = 0" using assms(2,3) by simp
  finally show ?thesis by simp
qed

lemma div_step:
  fixes x k :: int
  assumes "0 < k"
  shows "(x + 1) div k = x div k + (if x mod k = k - 1 then 1 else 0)"
proof (cases "x mod k = k - 1")
  case True
  have e: "x = k * (x div k) + x mod k" by simp
  have "x = k * (x div k) + (k - 1)" using e unfolding True .
  then have "x + 1 = k * (x div k + 1) + 0" by (simp add: algebra_simps)
  then have "(x + 1) div k = x div k + 1" 
    by (rule div_unique_int) (use assms in simp_all)
  with True show ?thesis by simp
next
  case False
  have b: "0 \<le> x mod k" "x mod k < k" using assms by simp_all
  have "x + 1 = k * (x div k) + (x mod k + 1)" by simp
  moreover have "0 \<le> x mod k + 1" "x mod k + 1 < k" using b False by linarith+
  ultimately have "(x + 1) div k = x div k" by (rule div_unique_int)
  with False show ?thesis by simp
qed

lemma mod_pred_iff:
  fixes x k c :: int
  assumes "0 < k" "k dvd c - 1"
  shows "((x - c) mod k = k - 1) = (x mod k = 0)"
proof -
  have "(k - 1) mod k = k - 1" using assms by (intro mod_pos_pos_trivial) simp_all
  then have "((x - c) mod k = k - 1) = ((x - c) mod k = (k - 1) mod k)" by simp
  also have "\<dots> = (k dvd (x - c) - (k - 1))" by (simp only: mod_eq_dvd_iff)
  also have "(x - c) - (k - 1) = x - (k + (c - 1))" by simp
  also have "k dvd (x - (k + (c - 1))) = (k dvd x)"
    using assms(2) by (intro dvd_diff_left_iff) simp
  finally show ?thesis by (simp add: dvd_eq_mod_eq_0)
qed

lemma leap_steps:
  fixes y :: int
  shows "(y + 1 - 1969) div 4 = (y - 1969) div 4 + (if y mod 4 = 0 then 1 else 0)"
    and "(y + 1 - 1901) div 100 = (y - 1901) div 100 + (if y mod 100 = 0 then 1 else 0)"
    and "(y + 1 - 1601) div 400 = (y - 1601) div 400 + (if y mod 400 = 0 then 1 else 0)"
proof -
  have a: "y + 1 - 1969 = (y - 1969) + 1" "y + 1 - 1901 = (y - 1901) + 1"
    "y + 1 - 1601 = (y - 1601) + 1" by simp_all
  have m4: "((y - 1969) mod 4 = 4 - 1) = (y mod 4 = 0)" by (rule mod_pred_iff) simp_all
  have m100: "((y - 1901) mod 100 = 100 - 1) = (y mod 100 = 0)" by (rule mod_pred_iff) simp_all
  have m400: "((y - 1601) mod 400 = 400 - 1) = (y mod 400 = 0)" by (rule mod_pred_iff) simp_all
  show "(y + 1 - 1969) div 4 = (y - 1969) div 4 + (if y mod 4 = 0 then 1 else 0)"
    unfolding a(1) using div_step[of 4 "y - 1969"] m4 by simp
  show "(y + 1 - 1901) div 100 = (y - 1901) div 100 + (if y mod 100 = 0 then 1 else 0)"
    unfolding a(2) using div_step[of 100 "y - 1901"] m100 by simp
  show "(y + 1 - 1601) div 400 = (y - 1601) div 400 + (if y mod 400 = 0 then 1 else 0)"
    unfolding a(3) using div_step[of 400 "y - 1601"] m400 by simp
qed

lemma leap_divides:
  fixes y :: int
  shows "y mod 400 = 0 \<Longrightarrow> y mod 100 = 0" and "y mod 100 = 0 \<Longrightarrow> y mod 4 = 0"
proof -
  have "(100::int) dvd 400" "(4::int) dvd 100" by simp_all
  then show "y mod 400 = 0 \<Longrightarrow> y mod 100 = 0" and "y mod 100 = 0 \<Longrightarrow> y mod 4 = 0"
    by (auto simp only: mod_eq_0_iff_dvd dest: dvd_trans)
qed

lemma DayFromYear_Suc:
  "DayFromYear (y + 1) = DayFromYear y + (if isLeapYear y then 366 else 365)"
proof -
  have e: "DayFromYear (y + 1) = 365 * (y - 1970) + 365 + (y + 1 - 1969) div 4 
      - (y + 1 - 1901) div 100 + (y + 1 - 1601) div 400"
    by (simp add: DayFromYear_def algebra_simps)
  show ?thesis
    unfolding e leap_steps unfolding DayFromYear_def isLeapYear_def
    using leap_divides[of y] by auto
qed

lemma DayFromYear_bounds_aux:
  fixes y a b c :: int
  assumes "4 * a \<le> y - 1969" "y - 1969 < 4 * a + 4"
    and "100 * b \<le> y - 1901" "y - 1901 < 100 * b + 100"
    and "400 * c \<le> y - 1601" "y - 1601 < 400 * c + 400"
  shows "146097 * (y - 1970) - 600 \<le> 400 * (365 * (y - 1970) + a - b + c)"
    and "400 * (365 * (y - 1970) + a - b + c) \<le> 146097 * (y - 1970) + 600"
  using assms by (simp_all add: algebra_simps)

lemma DayFromYear_bounds:
  "146097 * (y - 1970) - 600 \<le> 400 * DayFromYear y"
  "400 * DayFromYear y \<le> 146097 * (y - 1970) + 600"
  unfolding DayFromYear_def
  by (rule DayFromYear_bounds_aux; rule div_bounds; simp)+

lemma YearFromDay_spec:
  "DayFromYear (YearFromDay d) \<le> d" "d < DayFromYear (YearFromDay d + 1)"
proof -
  define y0 where "y0 = 1970 + (400 * d) div 146097"
  have b: "146097 * (y0 - 1970) \<le> 400 * d" "400 * d < 146097 * (y0 - 1970) + 146097"
    using div_bounds[of 146097 "400 * d"] by (simp_all add: y0_def)
  have lo: "DayFromYear (y0 - 1) \<le> d"
    using DayFromYear_bounds(2)[of "y0 - 1"] b by (simp add: algebra_simps)
  have hi: "d < DayFromYear (y0 + 1 + 1)"
    using DayFromYear_bounds(1)[of "y0 + 1 + 1"] b by (simp add: algebra_simps)
  have yd: "YearFromDay d = 
     (if d < DayFromYear y0 then y0 - 1
         else if DayFromYear (y0 + 1) \<le> d then y0 + 1
         else y0)" by (simp add: YearFromDay_def y0_def Let_def)
  show "DayFromYear (YearFromDay d) \<le> d" using lo by (simp add: yd)
  show "d < DayFromYear (YearFromDay d + 1)" using hi by (auto simp add: yd)
qed


lemma mod_step:
  fixes x k :: int
  assumes "0 < k"
  shows "(x + 1) mod k = (if x mod k = k - 1 then 0 else x mod k + 1)"
proof -
  define q r c where "q = x div k" and "r = x mod k" and "c = (if r = k - 1 then 1 else (0::int))"
  have x: "x = k * q + r" by (simp add: q_def r_def)
  have "(x + 1) mod k = x + 1 - k * ((x + 1) div k)"
    by (simp add: minus_mult_div_eq_mod)
  also have "(x + 1) div k = q + c"
    using div_step[OF assms, of x] by (simp add: q_def r_def c_def)
  also have "x + 1 - k * (q + c) = r + 1 - k * c"
    by (simp add: x algebra_simps)
  finally have "(x + 1) mod k = r + 1 - k * c" .
  then show ?thesis by (simp add: c_def r_def)
qed

lemma MakeDay_date: "MakeDay y m d = MakeDay y m 1 + d - 1"
  by (simp add: MakeDay_def Let_def)

lemma MakeDay_norm: "MakeDay y m d = MakeDay 0 (12 * y + m) d"
  by (simp add: MakeDay_def Let_def)

lemma daysInMonth_alt:
  "daysInMonth y m =
     (if m mod 12 = 1 then (if isLeapYear (y + m div 12) then 29 else 28)
      else 31 - ((m mod 12 mod 7) mod 2))"
proof -
  have a: "(m - m mod 12) div 12 = m div 12"
    by (simp add: minus_mod_eq_mult_div)
  show ?thesis by (simp only: daysInMonth_def Let_def a)
qed

lemma daysInMonth_norm: "daysInMonth y m = daysInMonth 0 (12 * y + m)"
  by (simp add: daysInMonth_alt)

lemma daysInMonth_bounds: "28 \<le> daysInMonth y m" "daysInMonth y m \<le> 31"
proof -
  have "0 \<le> (m mod 12 mod 7) mod 2" "(m mod 12 mod 7) mod 2 < 2" by simp_all
  then show "28 \<le> daysInMonth y m" "daysInMonth y m \<le> 31"
    by (auto simp: daysInMonth_alt)
qed

lemma twelve_cases:
  fixes r :: int
  assumes "0 \<le> r" "r < 12"
  shows "r = 0 \<or> r = 1 \<or> r = 2 \<or> r = 3 \<or> r = 4 \<or> r = 5 \<or> r = 6 \<or> r = 7 \<or> r = 8 \<or> r = 9
    \<or> r = 10 \<or> r = 11"
  using assms by presburger

lemma mod12_cases:
  fixes M :: int
  shows "M mod 12 = 0 \<or> M mod 12 = 1 \<or> M mod 12 = 2 \<or> M mod 12 = 3 \<or> M mod 12 = 4
    \<or> M mod 12 = 5 \<or> M mod 12 = 6 \<or> M mod 12 = 7 \<or> M mod 12 = 8 \<or> M mod 12 = 9
    \<or> M mod 12 = 10 \<or> M mod 12 = 11"
  by (rule twelve_cases) simp_all

lemma month_step: "MakeDay 0 (M + 1) 1 = MakeDay 0 M 1 + daysInMonth 0 M"
proof -
  have d: "(M + 1) div 12 = M div 12 + (if M mod 12 = 11 then 1 else 0)"
    using div_step[of 12 M] by simp
  have m: "(M + 1) mod 12 = (if M mod 12 = 11 then 0 else M mod 12 + 1)"
    using mod_step[of 12 M] by simp
  show ?thesis
    using mod12_cases[of M]
    by (elim disjE)
       (simp_all add: MakeDay_def daysInMonth_alt Let_def d m daysBeforeMonth_def
          DayFromYear_Suc)
qed

lemma month_start_mono_aux:
  "MakeDay 0 M 1 + daysInMonth 0 M \<le> MakeDay 0 (M + 1 + int n) 1"
proof (induction n)
  case 0
  then show ?case by (simp add: month_step)
next
  case (Suc n)
  have "MakeDay 0 (M + 1 + int (Suc n)) 1 = MakeDay 0 ((M + 1 + int n) + 1) 1"
    by (simp add: algebra_simps)
  also have "\<dots> = MakeDay 0 (M + 1 + int n) 1 + daysInMonth 0 (M + 1 + int n)"
    by (rule month_step)
  finally show ?case using Suc daysInMonth_bounds(1)[of 0 "M + 1 + int n"] by linarith
qed

lemma month_start_mono:
  assumes "M < M'"
  shows "MakeDay 0 M 1 + daysInMonth 0 M \<le> MakeDay 0 M' 1"
proof -
  have "M' = M + 1 + int (nat (M' - M - 1))" using assms by simp
  then show ?thesis using month_start_mono_aux[of M "nat (M' - M - 1)"] by simp
qed

lemma civil_of_day:
  "0 \<le> MonthFromDay d \<and> MonthFromDay d \<le> 11 \<and> 1 \<le> DateFromDay d \<and>
   DateFromDay d \<le> daysInMonth (YearFromDay d) (MonthFromDay d) \<and>
   MakeDay (YearFromDay d) (MonthFromDay d) (DateFromDay d) = d"
proof -
  define y where "y = YearFromDay d"
  define w where "w = DayWithinYear d"
  have w0: "0 \<le> w" using YearFromDay_spec(1)[of d] by (simp add: w_def DayWithinYear_def)
  have w1: "w < (if isLeapYear y then 366 else 365)"
    using YearFromDay_spec(2)[of d] DayFromYear_Suc[of y]
    by (simp add: w_def DayWithinYear_def y_def)
  have d: "d = DayFromYear y + w" by (simp add: w_def DayWithinYear_def y_def)
  show ?thesis
    unfolding MonthFromDay_def DateFromDay_def y_def[symmetric] w_def[symmetric] Let_def
    using w0 w1
    by (auto simp: daysInMonth_alt daysBeforeMonth_def MakeDay_def Let_def d)
qed



lemma monthIndex_day:
  "MakeDay 0 (monthIndex d) 1 + DateFromDay d - 1 = d"
  "1 \<le> DateFromDay d" "DateFromDay d \<le> daysInMonth 0 (monthIndex d)"
proof -
  note c = civil_of_day[of d]
  show "MakeDay 0 (monthIndex d) 1 + DateFromDay d - 1 = d"
    using c MakeDay_norm[of "YearFromDay d" "MonthFromDay d" "DateFromDay d"]
      MakeDay_date[of 0 "monthIndex d" "DateFromDay d"]
    by (simp add: monthIndex_def)
  show "1 \<le> DateFromDay d" using c by simp
  show "DateFromDay d \<le> daysInMonth 0 (monthIndex d)"
    using c daysInMonth_norm[of "YearFromDay d" "MonthFromDay d"] by (simp add: monthIndex_def)
qed

lemma monthIndex_parts:
  "YearFromDay d = monthIndex d div 12" "MonthFromDay d = monthIndex d mod 12"
proof -
  have m: "0 \<le> MonthFromDay d" "MonthFromDay d < 12" using civil_of_day[of d] by simp_all
  show "YearFromDay d = monthIndex d div 12"
    unfolding monthIndex_def using m by (simp add: div_pos_pos_trivial)
  show "MonthFromDay d = monthIndex d mod 12"
    unfolding monthIndex_def using m by (simp add: mod_pos_pos_trivial)
qed

lemma monthIndex_lower:
  assumes "MakeDay 0 M 1 \<le> d"
  shows "M \<le> monthIndex d"
proof (rule ccontr)
  assume "\<not> M \<le> monthIndex d"
  then have "monthIndex d < M" by simp
  from month_start_mono[OF this] monthIndex_day[of d] assms show False by linarith
qed

lemma monthIndex_upper:
  assumes "d < MakeDay 0 M 1 + daysInMonth 0 M"
  shows "monthIndex d \<le> M"
proof (rule ccontr)
  assume "\<not> monthIndex d \<le> M"
  then have "M < monthIndex d" by simp
  from month_start_mono[OF this] monthIndex_day[of d] assms show False by linarith
qed

lemma civil_unique:
  assumes "1 \<le> dt" "dt \<le> daysInMonth 0 M"
  shows "monthIndex (MakeDay 0 M dt) = M" "DateFromDay (MakeDay 0 M dt) = dt"
proof -
  let ?d = "MakeDay 0 M dt"
  have d: "?d = MakeDay 0 M 1 + dt - 1" by (rule MakeDay_date)
  have "M \<le> monthIndex ?d" by (rule monthIndex_lower) (use d assms in linarith)
  moreover have "monthIndex ?d \<le> M" by (rule monthIndex_upper) (use d assms in linarith)
  ultimately show m: "monthIndex ?d = M" by simp
  show "DateFromDay ?d = dt" using monthIndex_day(1)[of ?d] d unfolding m by linarith
qed

lemma TimeWithinDay_bounds: "0 \<le> TimeWithinDay t" "TimeWithinDay t < msPerDay"
  by (simp_all add: TimeWithinDay_def msPerDay_def)

lemma MakeDate_Day: "MakeDate (Day t) (TimeWithinDay t) = t"
  by (simp add: MakeDate_def Day_def TimeWithinDay_def)

lemma Day_MakeDate: "Day (MakeDate d (TimeWithinDay t)) = d"
  unfolding Day_def MakeDate_def TimeWithinDay_def msPerDay_def by simp

lemma TimeWithinDay_MakeDate: "TimeWithinDay (MakeDate d (TimeWithinDay t)) = TimeWithinDay t"
  unfolding MakeDate_def TimeWithinDay_def msPerDay_def by simp

lemma MakeDate_less: "d1 < d2 \<Longrightarrow> MakeDate d1 tm < MakeDate d2 tm"
  by (simp add: MakeDate_def msPerDay_def)

lemma MakeDate_le: "d1 \<le> d2 \<Longrightarrow> MakeDate d1 tm \<le> MakeDate d2 tm"
  by (simp add: MakeDate_def msPerDay_def)

text \<open>A date in a later month is a later time.\<close>

lemma later_month:
  assumes "monthIndex (Day t) < M" "0 \<le> k"
  shows "t < MakeDate (MakeDay 0 M 1 + k) (TimeWithinDay t)"
proof -
  have "Day t < MakeDay 0 M 1"
    using month_start_mono[OF assms(1)] monthIndex_day[of "Day t"] by linarith
  then have "Day t < MakeDay 0 M 1 + k" using assms(2) by simp
  from MakeDate_less[OF this, of "TimeWithinDay t"] show ?thesis by (simp add: MakeDate_Day)
qed

lemma set_month_civil:
  "monthIndex (Day (set_month v t)) = 12 * m_year t + v"
  "m_date (set_month v t) = min (m_date t) (daysInMonth (m_year t) v)"
  "TimeWithinDay (set_month v t) = TimeWithinDay t"
proof -
  let ?dd = "min (m_date t) (daysInMonth (m_year t) v)"
  let ?M = "12 * m_year t + v"
  have D: "Day (set_month v t) = MakeDay 0 ?M ?dd"
    unfolding set_month_def Day_MakeDate by (rule MakeDay_norm)
  have r: "1 \<le> ?dd" "?dd \<le> daysInMonth 0 ?M"
    using monthIndex_day(2)[of "Day t"] daysInMonth_bounds(1)[of "m_year t" v]
      daysInMonth_norm[of "m_year t" v]
    by (simp_all add: m_date_def)
  show "monthIndex (Day (set_month v t)) = ?M" unfolding D by (rule civil_unique(1)[OF r])
  show "m_date (set_month v t) = ?dd" using civil_unique(2)[OF r] by (simp add: m_date_def D)
  show "TimeWithinDay (set_month v t) = TimeWithinDay t"
    unfolding set_month_def by (rule TimeWithinDay_MakeDate)
qed

lemma add_months_civil:
  "monthIndex (Day (add_months n t)) = monthIndex (Day t) + n"
  "TimeWithinDay (add_months n t) = TimeWithinDay t"
proof -
  show "monthIndex (Day (add_months n t)) = monthIndex (Day t) + n"
    unfolding add_months_def set_month_civil
    by (simp add: monthIndex_def m_year_def m_month_def)
  show "TimeWithinDay (add_months n t) = TimeWithinDay t"
    unfolding add_months_def by (rule set_month_civil)
qed

lemma set_date_Day:
  "Day (set_date v t) = MakeDay 0 (monthIndex (Day t)) 1 + v - 1"
  "TimeWithinDay (set_date v t) = TimeWithinDay t"
proof -
  show "Day (set_date v t) = MakeDay 0 (monthIndex (Day t)) 1 + v - 1"
    unfolding set_date_def Day_MakeDate m_year_def m_month_def
    using MakeDay_norm[of "YearFromDay (Day t)" "MonthFromDay (Day t)" v]
      MakeDay_date[of 0 "monthIndex (Day t)" v]
    by (simp add: monthIndex_def)
  show "TimeWithinDay (set_date v t) = TimeWithinDay t"
    unfolding set_date_def by (rule TimeWithinDay_MakeDate)
qed

subsection \<open>The next occurrence is later\<close>


lemma Day_less: 
  assumes "Day a < Day b" shows "a < b"
proof -
  have p: "(0::int) < 86400000" by simp
  have "a < 86400000 * (a div 86400000) + 86400000" by (rule div_bounds(2)[OF p])
  moreover have "86400000 * (b div 86400000) \<le> b" by (rule div_bounds(1)[OF p])
  moreover have "a div 86400000 + 1 \<le> b div 86400000" using assms by (simp add: Day_def msPerDay_def)
  ultimately show ?thesis by linarith
qed


lemma month_start_le: "M \<le> M' \<Longrightarrow> MakeDay 0 M 1 \<le> MakeDay 0 M' 1"
  using month_start_mono[of M M'] daysInMonth_bounds(1)[of 0 M] by (cases "M = M'") auto


lemma Day_lt_next_month: "d < MakeDay 0 (monthIndex d + 1) 1"
  using monthIndex_day[of d] month_step[of "monthIndex d"] by linarith

lemma month_less:
  assumes "monthIndex (Day a) < M" "MakeDay 0 M 1 \<le> Day b"
  shows "a < b"
proof -
  have "Day a < MakeDay 0 (monthIndex (Day a) + 1) 1" by (rule Day_lt_next_month)
  also have "\<dots> \<le> MakeDay 0 M 1" by (rule month_start_le) (use assms in simp)
  finally have "Day a < Day b" using assms(2) by linarith
  then show ?thesis by (rule Day_less)
qed








subsection \<open>The expansion loop: cap and shape of the instances\<close>

lemma generateLoop_length:
  "length (generateLoop b p e m d c n) \<le> m - n"
proof (induction b p e m d c n rule: generateLoop.induct)
  case (1 b p e m d c n)
  let ?G = "c < e \<and> n < m \<and> (case endDate p of None \<Rightarrow> True | Some x \<Rightarrow> c < x) \<and>
         (\<not> truthy (occurrences p) \<or> int n < num (occurrences p))"
  let ?rest = "generateLoop b p e m d (getNextOccurrence c p) (Suc n)"
  show ?case
  proof (cases ?G)
    case True
    have l: "length ?rest \<le> m - Suc n" using 1 True by blast
    have nm: "n < m" using True by blast
    have "length (generateLoop b p e m d c n) = Suc (length ?rest)"
      using True by (subst generateLoop.simps) simp
    then show ?thesis using l nm by linarith
  next
    case False
    then have "generateLoop b p e m d c n = []" by (subst generateLoop.simps) simp
    then show ?thesis by simp
  qed
qed


lemma generateLoop_step:
  "c < e \<Longrightarrow> n < m \<Longrightarrow> endDate p = None \<Longrightarrow> occurrences p = None \<Longrightarrow>
   generateLoop b p e m d c n =
     b\<lparr>id_ev := id_ev b @ ''_recur_'' @ string_of_nat n, start := c, end_ev := c + d\<rparr>
     # generateLoop b p e m d (getNextOccurrence c p) (Suc n)"
  by (subst generateLoop.simps) (simp add: truthy_def)

lemma generateLoop_stop: "\<not> c < e \<Longrightarrow> generateLoop b p e m d c n = []"
  by (subst generateLoop.simps) simp

text \<open>
  C10. For every base event, pattern, window and cap \<open>maxOccurrences\<close>, the expansion
  returns (the loop is a total function: its counter rises by one each turn and is
  bounded by the cap) and returns at most \<open>maxOccurrences\<close> occurrences, whatever the
  pattern: unbounded, or with an interval of zero that never moves the cursor.
\<close>

theorem generateRecurringEvents_capped:
  "length (generateRecurringEvents baseEvent pattern startDate endDate' maxOccurrences)
     \<le> maxOccurrences"
  using generateLoop_length[of baseEvent pattern endDate' maxOccurrences _ _ 0]
  by (simp add: generateRecurringEvents_def Let_def)




subsection \<open>Window containment\<close>








subsection \<open>Local time\<close>

text \<open>Setting the date to \<open>date() + n\<close> moves the time value by \<open>n\<close> whole days.\<close>

lemma set_date_add: "set_date (m_date t + n) t = add_days n t"
proof -
  have "MakeDay (m_year t) (m_month t) (m_date t + n) = Day t + n"
    using MakeDay_date[of "m_year t" "m_month t" "m_date t + n"]
      MakeDay_date[of "m_year t" "m_month t" "m_date t"] civil_of_day[of "Day t"]
    by (simp add: m_year_def m_month_def m_date_def)
  then have "set_date (m_date t + n) t = MakeDate (Day t + n) (TimeWithinDay t)"
    by (simp add: set_date_def)
  also have "\<dots> = MakeDate (Day t) (TimeWithinDay t) + n * msPerDay"
    by (simp add: MakeDate_def algebra_simps)
  finally show ?thesis by (simp add: MakeDate_Day add_days_def)
qed

lemma m_day_plus: "m_day (t + n * msPerDay) = (m_day t + n) mod 7"
  using m_day_add_days[of n t] by (simp add: add_days_def)

text \<open>
  In a process whose zone is UTC the local operations are the operations of the first
  section, and the expansion in the zone is \<open>generateRecurringEvents\<close>: what is proved of
  the one holds of the other.
\<close>

lemma set_month_same: "set_month (m_month t) t = t"
proof -
  have "min (m_date t) (daysInMonth (m_year t) (m_month t)) = m_date t"
    using civil_of_day[of "Day t"] by (simp add: m_year_def m_month_def m_date_def)
  moreover have "MakeDay (m_year t) (m_month t) (m_date t) = Day t"
    using civil_of_day[of "Day t"] by (simp add: m_year_def m_month_def m_date_def)
  ultimately show ?thesis by (simp add: set_month_def MakeDate_Day)
qed

lemma utcZone_times [simp]: "LocalTime utcZone t = t" "UTC utcZone t = t"
  by (simp_all add: LocalTime_def UTC_def utcZone_def)

lemma utcZone_ops:
  "local_day utcZone t = m_day t"
  "local_date utcZone t = m_date t"
  "local_month utcZone t = m_month t"
  "local_set_date utcZone v t = set_date v t"
  "local_set_month utcZone v t = set_month v t"
  "local_add_days utcZone n t = add_days n t"
  "local_add_weeks utcZone n t = add_weeks n t"
  "local_add_months utcZone n t = add_months n t"
  "local_add_years utcZone n t = add_years n t"
  "local_set_day utcZone v t = set_day v t"
proof -
  show d: "local_day utcZone t = m_day t" for t by (simp add: local_day_def)
  show "local_date utcZone t = m_date t" by (simp add: local_date_def)
  show "local_month utcZone t = m_month t" by (simp add: local_month_def)
  show "local_set_date utcZone v t = set_date v t" by (simp add: local_set_date_def)
  show "local_set_month utcZone v t = set_month v t" by (simp add: local_set_month_def)
  show a: "local_add_days utcZone n t = add_days n t" for n t
    by (simp add: local_add_days_def local_set_date_def local_date_def set_date_add add_days_0)
  show "local_add_weeks utcZone n t = add_weeks n t"
    by (simp add: local_add_weeks_def add_weeks_def a)
  show m: "local_add_months utcZone n t = add_months n t" for n t
    by (simp add: local_add_months_def local_set_month_def local_month_def add_months_def
          set_month_same)
  show "local_add_years utcZone n t = add_years n t"
    by (simp add: local_add_years_def add_years_def m)
  show "local_set_day utcZone v t = set_day v t"
    by (simp add: local_set_day_def set_day_def a d)
qed

lemma skipWeekend_local_utcZone: "skipWeekend_local utcZone t = Some (skipWeekend t)"
proof (induction t rule: skipWeekend.induct)
  case (1 t)
  show ?case
    apply (subst skipWeekend_local.simps)
    apply (subst skipWeekend.simps)
    using 1 by (simp add: Let_def utcZone_ops)
qed

lemma getNextOccurrence_local_utcZone:
  "getNextOccurrence_local utcZone t p = Some (getNextOccurrence t p)"
  by (simp add: getNextOccurrence_local_def getNextOccurrence_def utcZone_ops
        skipWeekend_local_utcZone Let_def
      split: RecurrenceType.split option.split)

lemma generateLoop_local_utcZone:
  "generateLoop_local utcZone b p e m d c n = Some (generateLoop b p e m d c n)"
proof (induction b p e m d c n rule: generateLoop.induct)
  case (1 b p e m d c n)
  show ?case
    apply (subst generateLoop_local.simps)
    apply (subst generateLoop.simps)
    using 1 by (simp add: getNextOccurrence_local_utcZone)
qed

lemma generateRecurringEvents_local_utcZone:
  "generateRecurringEvents_local utcZone b p s e m = Some (generateRecurringEvents b p s e m)"
  by (simp add: generateRecurringEvents_local_def generateRecurringEvents_def Let_def
        getNextOccurrence_local_utcZone generateLoop_local_utcZone)

text \<open>
  A zone whose offset is \<open>c\<close> from the time \<open>a\<close> to the time \<open>b\<close>: between these
  times a local day is 24 hours.
\<close>

lemma steady_LocalTime:
  assumes "\<forall>t. a \<le> t \<and> t \<le> b \<longrightarrow> utcOffset tz t = c" "a \<le> t" "t \<le> b"
  shows "LocalTime tz t = t + c"
  using assms by (simp add: LocalTime_def)

lemma steady_UTC:
  assumes "\<forall>t. a + c \<le> t \<and> t \<le> b + c \<longrightarrow> localOffset tz t = c" "a \<le> t" "t \<le> b"
  shows "UTC tz (t + c) = t"
  using assms by (simp add: UTC_def)

subsection \<open>Monday, Wednesday and Friday of every week\<close>

lemma find_gt_sorted:
  fixes c :: int
  shows "sorted xs \<Longrightarrow> x \<in> set xs \<Longrightarrow> c < x \<Longrightarrow> (\<forall>y\<in>set xs. c < y \<longrightarrow> x \<le> y) \<Longrightarrow>
         find (\<lambda>d. d > c) xs = Some x"
proof (induction xs)
  case Nil
  then show ?case by simp
next
  case (Cons a xs)
  show ?case
  proof (cases "c < a")
    case True
    then have "x \<le> a" using Cons.prems(4) by simp
    moreover have "a \<le> x" using Cons.prems(1,2) by auto
    ultimately show ?thesis using True by simp
  next
    case False
    then have "x \<in> set xs" using Cons.prems(2,3) by auto
    then show ?thesis using False Cons by simp
  qed
qed

lemma hd_sorted_least:
  fixes xs :: "int list"
  shows "sorted xs \<Longrightarrow> x \<in> set xs \<Longrightarrow> (\<forall>y\<in>set xs. x \<le> y) \<Longrightarrow> hd xs = x"
  by (cases xs) (auto simp: order_antisym)

text \<open>
  The next occurrence of a Monday, Wednesday, Friday pattern of every week, from a time
  whose local time value is \<open>X\<close>. From a Friday the code moves a week ahead and then
  back to the Monday.
\<close>

lemma local_add_days_at:
  assumes "LocalTime tz t = X" "n \<noteq> 0"
  shows "local_add_days tz n t = UTC tz (X + n * msPerDay)"
  using assms
  by (simp add: local_add_days_def local_set_date_def local_date_def set_date_add add_days_def)

lemma getNextOccurrence_local_mon_wed_fri:
  assumes p: "rtype p = weekly" "interval p = 1" "daysOfWeek p = Some ds" "set ds = {1, 3, 5}"
    and x: "LocalTime tz t = X"
  shows "m_day X = 1 \<Longrightarrow> getNextOccurrence_local tz t p = Some (UTC tz (X + 2 * msPerDay))"
    and "m_day X = 3 \<Longrightarrow> getNextOccurrence_local tz t p = Some (UTC tz (X + 2 * msPerDay))"
    and "m_day X = 5 \<Longrightarrow> LocalTime tz (UTC tz (X + 7 * msPerDay)) = X + 7 * msPerDay \<Longrightarrow>
           getNextOccurrence_local tz t p = Some (UTC tz (X + 3 * msPerDay))"
proof -
  note s = p(4)
  have ne: "length ds > 0" using s by (cases ds) auto
  have f1: "find (\<lambda>d. d > 1) (sort ds) = Some 3"
    by (rule find_gt_sorted) (simp_all add: s)
  have f3: "find (\<lambda>d. d > 3) (sort ds) = Some 5"
    by (rule find_gt_sorted) (simp_all add: s)
  have f5: "find (\<lambda>d. d > 5) (sort ds) = None"
    by (auto simp add: find_None_iff s)
  have h: "hd (sort ds) = 1"
    by (rule hd_sorted_least) (simp_all add: s)
  have d: "local_day tz t = m_day X" by (simp add: local_day_def x)
  have a2: "local_add_days tz 2 t = UTC tz (X + 2 * msPerDay)"
    using local_add_days_at[OF x, of 2] by simp
  show "m_day X = 1 \<Longrightarrow> getNextOccurrence_local tz t p = Some (UTC tz (X + 2 * msPerDay))"
    using p(1-3) ne f1 a2 d
    by (simp add: getNextOccurrence_local_def Let_def local_set_day_def)
  show "m_day X = 3 \<Longrightarrow> getNextOccurrence_local tz t p = Some (UTC tz (X + 2 * msPerDay))"
    using p(1-3) ne f3 a2 d
    by (simp add: getNextOccurrence_local_def Let_def local_set_day_def)
  show "getNextOccurrence_local tz t p = Some (UTC tz (X + 3 * msPerDay))"
    if fri: "m_day X = 5" and rt: "LocalTime tz (UTC tz (X + 7 * msPerDay)) = X + 7 * msPerDay"
  proof -
    have a7: "local_add_days tz 7 t = UTC tz (X + 7 * msPerDay)"
      using local_add_days_at[OF x, of 7] by simp
    have d7: "local_day tz (UTC tz (X + 7 * msPerDay)) = 5"
      using m_day_plus[of X 7] fri by (simp add: local_day_def rt)
    have b4: "local_add_days tz (- 4) (UTC tz (X + 7 * msPerDay)) = UTC tz (X + 3 * msPerDay)"
      using local_add_days_at[OF rt, of "- 4"] by (simp add: algebra_simps)
    show ?thesis
      using p(1-3) ne f5 h a7 d7 b4 d fri
      by (simp add: getNextOccurrence_local_def Let_def local_set_day_def local_add_weeks_def)
  qed
qed

lemma generateLoop_local_stop:
  "\<not> c < e \<Longrightarrow> generateLoop_local tz b p e m d c n = Some []"
  by (subst generateLoop_local.simps) simp

lemma generateLoop_local_step:
  assumes "c < e" "n < m" "endDate p = None" "occurrences p = None"
    and "getNextOccurrence_local tz c p = Some next"
    and "generateLoop_local tz b p e m d next (Suc n) = Some events"
  shows "\<exists>events'. generateLoop_local tz b p e m d c n = Some events' \<and>
           map start events' = c # map start events"
  using assms by (subst generateLoop_local.simps) (simp add: truthy_def)

lemma weekly_mon_wed_fri_loop:
  assumes mon: "local_day tz s = 1"
    and p: "rtype p = weekly" "interval p = 1" "daysOfWeek p = Some ds" "set ds = {1, 3, 5}"
    and u: "endDate p = None" "occurrences p = None"
    and m: "6 \<le> m"
    and rt: "\<forall>k \<in> {2, 4, 7, 9, 11, 18}. keepsLocalTime tz s k"
    and i0: "s < e"
    and ins: "\<forall>k \<in> {2, 4, 7, 9, 11}. sameTimeOn tz s k < e"
    and out: "e \<le> sameTimeOn tz s 14"
  shows "\<exists>events. generateLoop_local tz b p e m d s 0 = Some events \<and>
           map start events = s # map (sameTimeOn tz s) [2, 4, 7, 9, 11]"
proof -
  let ?L = "LocalTime tz s"
  let ?T = "sameTimeOn tz s"
  let ?g = "generateLoop_local tz b p e m d"
  note nx = getNextOccurrence_local_mon_wed_fri[OF p]
  have L: "m_day ?L = 1" using mon by (simp add: local_day_def)
  have day: "m_day (?L + k * msPerDay) = (1 + k) mod 7" for k
    using m_day_plus[of ?L k] L by simp
  have lt: "LocalTime tz (?T k) = ?L + k * msPerDay" if "k \<in> {2, 4, 7, 9, 11, 18}" for k
    using rt that unfolding keepsLocalTime_def by blast
  have n0: "getNextOccurrence_local tz s p = Some (?T 2)"
    using nx(1)[OF refl L] by (simp add: sameTimeOn_def)
  have n1: "getNextOccurrence_local tz (?T 2) p = Some (?T 4)"
    using nx(2)[OF lt[of 2]] day[of 2] by (simp add: sameTimeOn_def algebra_simps)
  have n2: "getNextOccurrence_local tz (?T 4) p = Some (?T 7)"
    using nx(3)[OF lt[of 4]] day[of 4] lt[of 11] by (simp add: sameTimeOn_def algebra_simps)
  have n3: "getNextOccurrence_local tz (?T 7) p = Some (?T 9)"
    using nx(1)[OF lt[of 7]] day[of 7] by (simp add: sameTimeOn_def algebra_simps)
  have n4: "getNextOccurrence_local tz (?T 9) p = Some (?T 11)"
    using nx(2)[OF lt[of 9]] day[of 9] by (simp add: sameTimeOn_def algebra_simps)
  have n5: "getNextOccurrence_local tz (?T 11) p = Some (?T 14)"
    using nx(3)[OF lt[of 11]] day[of 11] lt[of 18] by (simp add: sameTimeOn_def algebra_simps)
  have g6: "?g (?T 14) (Suc (Suc (Suc (Suc (Suc (Suc 0)))))) = Some []"
    by (rule generateLoop_local_stop) (use out in simp)
  obtain e5 where g5: "?g (?T 11) (Suc (Suc (Suc (Suc (Suc 0))))) = Some e5"
      "map start e5 = [?T 11]"
    using generateLoop_local_step[OF _ _ u n5 g6] m ins by auto
  obtain e4 where g4: "?g (?T 9) (Suc (Suc (Suc (Suc 0)))) = Some e4"
      "map start e4 = ?T 9 # map start e5"
    using generateLoop_local_step[OF _ _ u n4 g5(1)] m ins by auto
  obtain e3 where g3: "?g (?T 7) (Suc (Suc (Suc 0))) = Some e3"
      "map start e3 = ?T 7 # map start e4"
    using generateLoop_local_step[OF _ _ u n3 g4(1)] m ins by auto
  obtain e2 where g2: "?g (?T 4) (Suc (Suc 0)) = Some e2"
      "map start e2 = ?T 4 # map start e3"
    using generateLoop_local_step[OF _ _ u n2 g3(1)] m ins by auto
  obtain e1 where g1: "?g (?T 2) (Suc 0) = Some e1"
      "map start e1 = ?T 2 # map start e2"
    using generateLoop_local_step[OF _ _ u n1 g2(1)] m ins by auto
  obtain e0 where g0: "?g s 0 = Some e0" "map start e0 = s # map start e1"
    using generateLoop_local_step[OF i0 _ u n0 g1(1)] m by auto
  show ?thesis
    using g0 g1(2) g2(2) g3(2) g4(2) g5(2) by simp
qed

text \<open>
  C8, as amended. A weekly pattern with interval 1 whose days of the week are Monday,
  Wednesday and Friday (the numbers 1, 3 and 5, listed in any order), without end date
  or occurrence count, on a base event that starts on a Monday of the local zone, with a
  cap of at least 6 (the default is 100). Let the local time of day of the base event
  not be skipped by a clock shift 2, 4, 7, 9, 11 and 18 days after its start (the days
  the code passes through). Expanded over a window that begins at the start of the base
  event and ends after that local time on the days 0, 2, 4, 7, 9 and 11 and no later
  than on day 14, the Monday two weeks after the start, the pattern gives exactly 6
  occurrences: the base event's start and its local time of day 2, 4, 7, 9 and 11 days
  later, each a local Monday, Wednesday or Friday.
\<close>

theorem weekly_mon_wed_fri:
  assumes "local_day tz (start baseEvent) = 1"
    and "rtype pattern = weekly" "interval pattern = 1" "daysOfWeek pattern = Some ds"
      "set ds = {1, 3, 5}"
    and "endDate pattern = None" "occurrences pattern = None"
    and "6 \<le> maxOccurrences"
    and "\<forall>k \<in> {2, 4, 7, 9, 11, 18}. keepsLocalTime tz (start baseEvent) k"
    and "start baseEvent < endDate'"
    and "\<forall>k \<in> {2, 4, 7, 9, 11}. sameTimeOn tz (start baseEvent) k < endDate'"
    and "endDate' \<le> sameTimeOn tz (start baseEvent) 14"
  shows "\<exists>events.
           generateRecurringEvents_local tz baseEvent pattern (start baseEvent) endDate'
             maxOccurrences = Some events \<and>
           length events = 6 \<and>
           (\<forall>e \<in> set events. local_day tz (start e) \<in> {1, 3, 5}) \<and>
           map start events =
             start baseEvent # map (sameTimeOn tz (start baseEvent)) [2, 4, 7, 9, 11]"
proof -
  let ?s = "start baseEvent"
  obtain events where g: "generateLoop_local tz baseEvent pattern endDate'
        maxOccurrences (end_ev baseEvent - ?s) ?s 0 = Some events"
    and s: "map start events = ?s # map (sameTimeOn tz ?s) [2, 4, 7, 9, 11]"
    using weekly_mon_wed_fri_loop[OF assms, of baseEvent "end_ev baseEvent - ?s"] by auto
  have r: "generateRecurringEvents_local tz baseEvent pattern ?s endDate' maxOccurrences =
             Some events"
    using g by (simp add: generateRecurringEvents_local_def Let_def)
  have "length (map start events) = 6" unfolding s by simp
  then have len: "length events = 6" by simp
  have L: "m_day (LocalTime tz ?s) = 1" using assms(1) by (simp add: local_day_def)
  have day: "local_day tz (sameTimeOn tz ?s k) = (1 + k) mod 7"
    if "k \<in> {2, 4, 7, 9, 11, 18}" for k
  proof -
    have "LocalTime tz (sameTimeOn tz ?s k) = LocalTime tz ?s + k * msPerDay"
      using assms(9) that unfolding keepsLocalTime_def by blast
    then show ?thesis
      using m_day_plus[of "LocalTime tz ?s" k] L by (simp add: local_day_def)
  qed
  have "\<forall>t \<in> set (map start events). local_day tz t \<in> {1, 3, 5}"
    unfolding s using assms(1) day[of 2] day[of 4] day[of 7] day[of 9] day[of 11] by simp
  then have d: "\<forall>e \<in> set events. local_day tz (start e) \<in> {1, 3, 5}" by simp
  show ?thesis
    by (intro exI[of _ events] conjI) (rule r len d s)+
qed

theorem weekly_mon_wed_fri_witness:
  "local_day newYork (start sampleMarch) = 1 \<and>
   list_all (keepsLocalTime newYork (start sampleMarch)) [2, 4, 7, 9, 11, 18] \<and>
   sameTimeOn newYork (start sampleMarch) 14 = MakeDate (MakeDay 2024 2 18) (13 * 3600000) \<and>
   map_option length
     (generateRecurringEvents_local newYork sampleMarch
        ((samplePattern weekly 1)\<lparr>daysOfWeek := Some [5, 1, 3]\<rparr>) (start sampleMarch)
        (MakeDate (MakeDay 2024 2 18) (13 * 3600000)) 100) = Some 6 \<and>
   map_option (map start)
     (generateRecurringEvents_local newYork sampleMarch
        ((samplePattern weekly 1)\<lparr>daysOfWeek := Some [5, 1, 3]\<rparr>) (start sampleMarch)
        (MakeDate (MakeDay 2024 2 18) (13 * 3600000)) 100) =
     Some [MakeDate (MakeDay 2024 2 4) (14 * 3600000), MakeDate (MakeDay 2024 2 6) (14 * 3600000),
           MakeDate (MakeDay 2024 2 8) (14 * 3600000), MakeDate (MakeDay 2024 2 11) (13 * 3600000),
           MakeDate (MakeDay 2024 2 13) (13 * 3600000), MakeDate (MakeDay 2024 2 15) (13 * 3600000)]"
proof -
  let ?s = "start sampleMarch"
  let ?e = "MakeDate (MakeDay 2024 2 18) (13 * 3600000)"
  let ?p = "(samplePattern weekly 1)\<lparr>daysOfWeek := Some [5, 1, 3]\<rparr>"
  have h: "local_day newYork ?s = 1" by code_simp
  have d: "set [5, 1, 3] = {1, 3, 5 :: int}" by auto
  have p: "rtype ?p = weekly" "interval ?p = 1" "daysOfWeek ?p = Some [5, 1, 3]"
    "endDate ?p = None" "occurrences ?p = None"
    by (simp_all add: samplePattern_def)
  have c: "(6::nat) \<le> 100" by simp
  have ks: "list_all (keepsLocalTime newYork ?s) [2, 4, 7, 9, 11, 18]" by code_simp
  then have k: "\<forall>k \<in> {2, 4, 7, 9, 11, 18}. keepsLocalTime newYork ?s k" by simp
  have i0: "?s < ?e" by code_simp
  have ins: "\<forall>k \<in> {2, 4, 7, 9, 11}. sameTimeOn newYork ?s k < ?e" by code_simp
  have e14: "sameTimeOn newYork ?s 14 = ?e" by code_simp
  have out: "?e \<le> sameTimeOn newYork ?s 14" unfolding e14 by simp
  have v: "?s # map (sameTimeOn newYork ?s) [2, 4, 7, 9, 11] =
     [MakeDate (MakeDay 2024 2 4) (14 * 3600000), MakeDate (MakeDay 2024 2 6) (14 * 3600000),
      MakeDate (MakeDay 2024 2 8) (14 * 3600000), MakeDate (MakeDay 2024 2 11) (13 * 3600000),
      MakeDate (MakeDay 2024 2 13) (13 * 3600000), MakeDate (MakeDay 2024 2 15) (13 * 3600000)]"
    by code_simp
  from weekly_mon_wed_fri[OF h p(1-3) d p(4,5) c k i0 ins out] h ks e14 show ?thesis
    unfolding v by auto
qed

text \<open>
  C8 as stated fails where daylight saving time begins inside the window. In New York
  the clock jumps ahead on Sunday 10 March 2024. A base event on Monday 4 March at 09:00
  (14:00 UTC) recurs at 09:00 local time, which from 11 March on is 13:00 UTC; so the
  seventh candidate, Monday 18 March at 09:00 (13:00 UTC), is still before the end of the
  window, 14 days of 24 hours after the start (14:00 UTC on 18 March), and is returned:
  7 occurrences.
\<close>

theorem weekly_mon_wed_fri_daylight_counterexample:
  "local_day newYork (start sampleMarch) = 1 \<and>
   map_option length
     (generateRecurringEvents_local newYork sampleMarch
        ((samplePattern weekly 1)\<lparr>daysOfWeek := Some [1, 3, 5]\<rparr>) (start sampleMarch)
        (start sampleMarch + 14 * msPerDay) 100) = Some 7 \<and>
   map_option (map start)
     (generateRecurringEvents_local newYork sampleMarch
        ((samplePattern weekly 1)\<lparr>daysOfWeek := Some [1, 3, 5]\<rparr>) (start sampleMarch)
        (start sampleMarch + 14 * msPerDay) 100) =
     Some [MakeDate (MakeDay 2024 2 4) (14 * 3600000), MakeDate (MakeDay 2024 2 6) (14 * 3600000),
           MakeDate (MakeDay 2024 2 8) (14 * 3600000), MakeDate (MakeDay 2024 2 11) (13 * 3600000),
           MakeDate (MakeDay 2024 2 13) (13 * 3600000), MakeDate (MakeDay 2024 2 15) (13 * 3600000),
           MakeDate (MakeDay 2024 2 18) (13 * 3600000)] \<and>
   start sampleMarch + 14 * msPerDay = MakeDate (MakeDay 2024 2 18) (14 * 3600000)"
proof -
  let ?r = "generateRecurringEvents_local newYork sampleMarch
        ((samplePattern weekly 1)\<lparr>daysOfWeek := Some [1, 3, 5]\<rparr>) (start sampleMarch)
        (start sampleMarch + 14 * msPerDay) 100"
  have d: "local_day newYork (start sampleMarch) = 1" by code_simp
  have e: "map_option (map start) ?r =
     Some [MakeDate (MakeDay 2024 2 4) (14 * 3600000), MakeDate (MakeDay 2024 2 6) (14 * 3600000),
           MakeDate (MakeDay 2024 2 8) (14 * 3600000), MakeDate (MakeDay 2024 2 11) (13 * 3600000),
           MakeDate (MakeDay 2024 2 13) (13 * 3600000), MakeDate (MakeDay 2024 2 15) (13 * 3600000),
           MakeDate (MakeDay 2024 2 18) (13 * 3600000)]"
    by code_simp
  have w: "start sampleMarch + 14 * msPerDay = MakeDate (MakeDay 2024 2 18) (14 * 3600000)"
    by code_simp
  from e obtain events where r: "?r = Some events" by (cases ?r) auto
  from e have "length (map start events) = 7" unfolding r by simp
  then have n: "map_option length ?r = Some 7" unfolding r by simp
  from d n e w show ?thesis by blast
qed

text \<open>
  In a zone whose offset does not change in the 18 days from the start of the base event,
  the window of 14 days of 24 hours is such a window, and the occurrences are whole days
  apart.
\<close>

lemma steady_sameTimeOn:
  assumes u: "\<forall>t. a \<le> t \<and> t \<le> b \<longrightarrow> utcOffset tz t = c"
    and l: "\<forall>t. a + c \<le> t \<and> t \<le> b + c \<longrightarrow> localOffset tz t = c"
    and t: "a \<le> t" "t \<le> b" and r: "a \<le> t + k * msPerDay" "t + k * msPerDay \<le> b"
  shows "sameTimeOn tz t k = t + k * msPerDay" and "keepsLocalTime tz t k"
proof -
  have lt: "LocalTime tz t = t + c" by (rule steady_LocalTime[OF u t])
  have "UTC tz ((t + k * msPerDay) + c) = t + k * msPerDay" by (rule steady_UTC[OF l r])
  then show s: "sameTimeOn tz t k = t + k * msPerDay"
    by (simp add: sameTimeOn_def lt algebra_simps)
  have "LocalTime tz (t + k * msPerDay) = (t + k * msPerDay) + c"
    by (rule steady_LocalTime[OF u r])
  then show "keepsLocalTime tz t k" by (simp add: keepsLocalTime_def s lt)
qed

lemma weekly_mon_wed_fri_steady:
  assumes mon: "local_day tz (start baseEvent) = 1"
    and p: "rtype pattern = weekly" "interval pattern = 1" "daysOfWeek pattern = Some ds"
      "set ds = {1, 3, 5}"
    and e: "endDate pattern = None" "occurrences pattern = None"
    and m: "6 \<le> maxOccurrences"
    and u: "\<forall>t. start baseEvent \<le> t \<and> t \<le> start baseEvent + 18 * msPerDay
              \<longrightarrow> utcOffset tz t = c"
    and l: "\<forall>t. start baseEvent + c \<le> t \<and> t \<le> start baseEvent + 18 * msPerDay + c
              \<longrightarrow> localOffset tz t = c"
  shows "\<exists>events.
           generateRecurringEvents_local tz baseEvent pattern (start baseEvent)
             (start baseEvent + 14 * msPerDay) maxOccurrences = Some events \<and>
           map start events = map (\<lambda>n. start baseEvent + n * msPerDay) [0, 2, 4, 7, 9, 11]"
proof -
  let ?s = "start baseEvent"
  have st: "sameTimeOn tz ?s k = ?s + k * msPerDay" "keepsLocalTime tz ?s k"
    if "0 \<le> k" "k \<le> 18" for k
    using steady_sameTimeOn[OF u l, of ?s k] that by (simp_all add: msPerDay_def)
  have rt: "\<forall>k \<in> {2, 4, 7, 9, 11, 18}. keepsLocalTime tz ?s k" using st(2) by simp
  have i0: "?s < ?s + 14 * msPerDay" by (simp add: msPerDay_def)
  have ins: "\<forall>k \<in> {2, 4, 7, 9, 11}. sameTimeOn tz ?s k < ?s + 14 * msPerDay"
    using st(1) by (simp add: msPerDay_def)
  have out: "?s + 14 * msPerDay \<le> sameTimeOn tz ?s 14" using st(1)[of 14] by simp
  show ?thesis
    using weekly_mon_wed_fri_loop[OF mon p e m rt i0 ins out, of baseEvent
        "end_ev baseEvent - ?s"]
    by (simp add: st(1) generateRecurringEvents_local_def Let_def)
qed

subsection \<open>The 31st of every month, from January to February\<close>

lemma daysInMonth_feb: "daysInMonth y 1 = (if isLeapYear y then 29 else 28)"
  by (simp add: daysInMonth_alt)

lemma daysInMonth_march: "daysInMonth 0 (12 * y + 2) = 31"
  by (simp add: daysInMonth_alt)

lemma m_year_monthIndex: "m_year t = monthIndex (Day t) div 12"
  unfolding m_year_def by (rule monthIndex_parts)

lemma m_month_monthIndex: "m_month t = monthIndex (Day t) mod 12"
  unfolding m_month_def by (rule monthIndex_parts)

lemma monthIndex_january:
  assumes "m_month t = 0"
  shows "monthIndex (Day t) = 12 * m_year t"
  using assms by (simp add: monthIndex_def m_year_def m_month_def)

lemma getNextOccurrence_jan31:
  assumes jan: "m_month t = 0" "m_date t = 31"
    and p: "rtype p = monthly" "interval p = 1" "dayOfMonth p = Some 31"
  shows "getNextOccurrence t p = lastOfFebruary t"
proof -
  let ?y = "m_year t"
  let ?F = "if isLeapYear ?y then 29 else (28::int)"
  let ?t1 = "add_months 1 t"
  let ?t2 = "set_date 31 ?t1"
  let ?t3 = "set_date 0 ?t2"
  have F: "daysInMonth 0 (12 * ?y + 1) = ?F"
    using daysInMonth_norm[of ?y 1] by (simp add: daysInMonth_feb)
  have m1: "monthIndex (Day ?t1) = 12 * ?y + 1"
    by (simp add: add_months_civil monthIndex_january[OF jan(1)])
  have d2: "Day ?t2 = MakeDay 0 (12 * ?y + 1) 1 + 30" by (simp add: set_date_Day m1)
  have step: "MakeDay 0 (12 * ?y + 2) 1 = MakeDay 0 (12 * ?y + 1) 1 + ?F"
    using month_step[of "12 * ?y + 1"] F by (simp add: algebra_simps)
  have d2': "Day ?t2 = MakeDay 0 (12 * ?y + 2) (31 - ?F)"
    using d2 step MakeDay_date[of 0 "12 * ?y + 2" "31 - ?F"] by simp
  have r: "1 \<le> 31 - ?F" "31 - ?F \<le> daysInMonth 0 (12 * ?y + 2)"
    by (simp_all add: daysInMonth_march)
  have m2: "monthIndex (Day ?t2) = 12 * ?y + 2" unfolding d2' by (rule civil_unique(1)[OF r])
  have "m_date ?t2 = 31 - ?F" unfolding m_date_def d2' by (rule civil_unique(2)[OF r])
  then have ne: "m_date ?t2 \<noteq> 31" by simp
  have "Day ?t3 = MakeDay 0 (12 * ?y + 2) 1 + 0 - 1"
    unfolding set_date_Day(1)[of 0 ?t2] m2 ..
  then have d3: "Day ?t3 = MakeDay 0 (12 * ?y + 1) 1 + ?F - 1"
    using step by simp
  have "MakeDay ?y 1 ?F = MakeDay 0 (12 * ?y + 1) 1 + ?F - 1"
    using MakeDay_norm[of ?y 1 ?F] MakeDay_date[of 0 "12 * ?y + 1" ?F] by simp
  then have D: "Day ?t3 = MakeDay ?y 1 ?F" using d3 by simp
  have T: "TimeWithinDay ?t3 = TimeWithinDay t"
    by (simp add: set_date_Day add_months_civil)
  have "?t3 = MakeDate (Day ?t3) (TimeWithinDay ?t3)" by (simp add: MakeDate_Day)
  then have "?t3 = lastOfFebruary t" unfolding D T lastOfFebruary_def .
  moreover have "getNextOccurrence t p = ?t3"
    using p ne by (simp add: getNextOccurrence_def Let_def truthy_def num_def)
  ultimately show ?thesis by simp
qed

lemma lastOfFebruary_civil:
  "m_year (lastOfFebruary t) = m_year t"
  "m_month (lastOfFebruary t) = 1"
  "m_date (lastOfFebruary t) = (if isLeapYear (m_year t) then 29 else 28)"
  "TimeWithinDay (lastOfFebruary t) = TimeWithinDay t"
proof -
  let ?y = "m_year t"
  let ?F = "if isLeapYear ?y then 29 else (28::int)"
  have D: "Day (lastOfFebruary t) = MakeDay 0 (12 * ?y + 1) ?F"
    unfolding lastOfFebruary_def Day_MakeDate by (rule MakeDay_norm)
  have F: "daysInMonth 0 (12 * ?y + 1) = ?F"
    using daysInMonth_norm[of ?y 1] by (simp add: daysInMonth_feb)
  have r: "1 \<le> ?F" "?F \<le> daysInMonth 0 (12 * ?y + 1)"
    by (simp_all add: F)
  have m: "monthIndex (Day (lastOfFebruary t)) = 12 * ?y + 1"
    unfolding D by (rule civil_unique(1)[OF r])
  show "m_year (lastOfFebruary t) = m_year t" unfolding m_year_monthIndex[of "lastOfFebruary t"] m by simp
  show "m_month (lastOfFebruary t) = 1" unfolding m_month_monthIndex[of "lastOfFebruary t"] m by simp
  show "m_date (lastOfFebruary t) = ?F" unfolding m_date_def D by (rule civil_unique(2)[OF r])
  show "TimeWithinDay (lastOfFebruary t) = TimeWithinDay t"
    unfolding lastOfFebruary_def by (rule TimeWithinDay_MakeDate)
qed

lemma jan31_before_lastOfFebruary:
  assumes "m_month t = 0"
  shows "t < lastOfFebruary t"
proof -
  have "monthIndex (Day t) < 12 * m_year t + 1" using monthIndex_january[OF assms] by simp
  moreover have "MakeDay 0 (12 * m_year t + 1) 1 \<le> Day (lastOfFebruary t)"
    unfolding lastOfFebruary_def Day_MakeDate
    using MakeDay_norm[of "m_year t" 1 "if isLeapYear (m_year t) then 29 else 28"]
      MakeDay_date[of 0 "12 * m_year t + 1" "if isLeapYear (m_year t) then 29 else 28"]
    by simp
  ultimately show ?thesis by (rule month_less)
qed

text \<open>
  Expanding from the base event on (the window starts no later than the base event), in
  a process in UTC: for a monthly pattern with \<open>dayOfMonth = 31\<close> and interval 1 and a
  base event on a 31 January, the second occurrence is the last day of that February,
  the 29th in a leap year and the 28th otherwise, at the time of day of the base event.
\<close>

lemma monthly_31_from_base:
  assumes "m_month (start baseEvent) = 0" "m_date (start baseEvent) = 31"
    and "rtype pattern = monthly" "interval pattern = 1" "dayOfMonth pattern = Some 31"
    and "endDate pattern = None" "occurrences pattern = None"
    and "startDate \<le> start baseEvent" "lastOfFebruary (start baseEvent) < endDate'"
    and "2 \<le> maxOccurrences"
  shows "1 < length (generateRecurringEvents baseEvent pattern startDate endDate' maxOccurrences) \<and>
         start (generateRecurringEvents baseEvent pattern startDate endDate' maxOccurrences ! 1) =
           lastOfFebruary (start baseEvent) \<and>
         m_year (lastOfFebruary (start baseEvent)) = m_year (start baseEvent) \<and>
         m_month (lastOfFebruary (start baseEvent)) = 1 \<and>
         m_date (lastOfFebruary (start baseEvent)) =
           (if isLeapYear (m_year (start baseEvent)) then 29 else 28)"
proof -
  let ?s = "start baseEvent"
  let ?d = "end_ev baseEvent - start baseEvent"
  have n: "getNextOccurrence ?s pattern = lastOfFebruary ?s"
    by (rule getNextOccurrence_jan31[OF assms(1-5)])
  have lt: "?s < lastOfFebruary ?s" by (rule jan31_before_lastOfFebruary[OF assms(1)])
  have c0: "?s < endDate'" using lt assms(9) by linarith
  have m: "0 < maxOccurrences" "Suc 0 < maxOccurrences" using assms(10) by simp_all
  have g: "generateRecurringEvents baseEvent pattern startDate endDate' maxOccurrences =
      generateLoop baseEvent pattern endDate' maxOccurrences ?d ?s 0"
    using assms(8) by (simp add: generateRecurringEvents_def Let_def)
  have "generateLoop baseEvent pattern endDate' maxOccurrences ?d ?s 0 =
      baseEvent\<lparr>id_ev := id_ev baseEvent @ ''_recur_'' @ string_of_nat 0, start := ?s,
        end_ev := ?s + ?d\<rparr> #
      baseEvent\<lparr>id_ev := id_ev baseEvent @ ''_recur_'' @ string_of_nat (Suc 0),
        start := lastOfFebruary ?s, end_ev := lastOfFebruary ?s + ?d\<rparr> #
      generateLoop baseEvent pattern endDate' maxOccurrences ?d
        (getNextOccurrence (lastOfFebruary ?s) pattern) (Suc (Suc 0))"
    using generateLoop_step[OF c0 m(1) assms(6,7), of baseEvent ?d]
      generateLoop_step[OF assms(9) m(2) assms(6,7), of baseEvent ?d]
    by (simp add: n)
  then show ?thesis unfolding g by (simp add: lastOfFebruary_civil)
qed

text \<open>
  C4. The code at the failing input: the base event on 31 January 2024 at 09:00, the
  monthly pattern of the 31st with interval 1, and the window that is February 2024,
  from 1 February 00:00 to 1 March 00:00. The base event lies before the window, so the
  cursor is set to the start of the window and moved one step from there
  (\<open>getNextOccurrence\<close> is given the start of the base event as \<open>baseDate\<close> and never
  reads it): from 1 February to 31 March, past the end of the window. The expansion
  returns nothing, in a process in UTC and, with the same local times, in New York. The
  occurrence of the series in that window, 29 February 09:00, is returned when the
  window starts at the base event.
\<close>

theorem generateRecurringEvents_february_window:
  "generateRecurringEvents_local utcZone sampleJan31
     ((samplePattern monthly 1)\<lparr>dayOfMonth := Some 31\<rparr>)
     (MakeDate (MakeDay 2024 1 1) 0) (MakeDate (MakeDay 2024 2 1) 0) 100 = Some [] \<and>
   getNextOccurrence_local utcZone (MakeDate (MakeDay 2024 1 1) 0)
     ((samplePattern monthly 1)\<lparr>dayOfMonth := Some 31\<rparr>) = Some (MakeDate (MakeDay 2024 2 31) 0) \<and>
   map_option (map start)
     (generateRecurringEvents_local utcZone sampleJan31
        ((samplePattern monthly 1)\<lparr>dayOfMonth := Some 31\<rparr>)
        (start sampleJan31) (MakeDate (MakeDay 2024 2 1) 0) 100) =
     Some [MakeDate (MakeDay 2024 0 31) (9 * 3600000), MakeDate (MakeDay 2024 1 29) (9 * 3600000)] \<and>
   generateRecurringEvents_local newYork
     (sampleJan31\<lparr>start := MakeDate (MakeDay 2024 0 31) (14 * 3600000),
                   end_ev := MakeDate (MakeDay 2024 0 31) (15 * 3600000)\<rparr>)
     ((samplePattern monthly 1)\<lparr>dayOfMonth := Some 31\<rparr>)
     (MakeDate (MakeDay 2024 1 1) (5 * 3600000)) (MakeDate (MakeDay 2024 2 1) (5 * 3600000)) 100 =
     Some []"
proof -
  let ?p = "(samplePattern monthly 1)\<lparr>dayOfMonth := Some 31\<rparr>"
  have a: "generateRecurringEvents sampleJan31 ?p
     (MakeDate (MakeDay 2024 1 1) 0) (MakeDate (MakeDay 2024 2 1) 0) 100 = []"
    by code_simp
  have b: "getNextOccurrence (MakeDate (MakeDay 2024 1 1) 0) ?p = MakeDate (MakeDay 2024 2 31) 0"
    by code_simp
  have c: "map start (generateRecurringEvents sampleJan31 ?p
        (start sampleJan31) (MakeDate (MakeDay 2024 2 1) 0) 100) =
     [MakeDate (MakeDay 2024 0 31) (9 * 3600000), MakeDate (MakeDay 2024 1 29) (9 * 3600000)]"
    by code_simp
  have d: "generateRecurringEvents_local newYork
     (sampleJan31\<lparr>start := MakeDate (MakeDay 2024 0 31) (14 * 3600000),
                   end_ev := MakeDate (MakeDay 2024 0 31) (15 * 3600000)\<rparr>) ?p
     (MakeDate (MakeDay 2024 1 1) (5 * 3600000)) (MakeDate (MakeDay 2024 2 1) (5 * 3600000)) 100 =
     Some []"
    by code_simp
  show ?thesis
    unfolding generateRecurringEvents_local_utcZone getNextOccurrence_local_utcZone
    using a b c d by simp
qed

subsection \<open>The cache\<close>

text \<open>
  C6, as amended. Let the effective TTL of a \<open>set\<close> be \<open>ttlMinutes * 60000\<close> for a
  TTL other than 0 and the cache's default TTL for a missing TTL or 0, and the expiry
  of the entry the time of the \<open>set\<close> plus the effective TTL. A \<open>get\<close> of the key at any
  time up to the expiry (the sweep inside \<open>set\<close> running no later than the expiry
  either), in particular at once when the effective TTL is not negative, returns the
  value stored. A \<open>get\<close> at a time strictly after the expiry returns nothing and leaves
  the key out of the cache.
\<close>

theorem CacheService_set_get:
  "(now' \<le> now + ttlMillis ttlMinutes cs \<longrightarrow> t \<le> now + ttlMillis ttlMinutes cs \<longrightarrow>
      fst (CacheService_get k t (CacheService_set k v ttlMinutes now now' cs)) = Some v) \<and>
   (now + ttlMillis ttlMinutes cs < t \<longrightarrow>
      fst (CacheService_get k t (CacheService_set k v ttlMinutes now now' cs)) = None \<and>
      cache (snd (CacheService_get k t (CacheService_set k v ttlMinutes now now' cs))) k = None)"
  by (auto simp: CacheService_get_def CacheService_set_def cleanupExpired_def Let_def
           split: option.splits)

theorem CacheService_set_get_witness:
  "(1000::int) \<le> 1000 + ttlMillis (Some 5) (newCacheService :: nat CacheService) \<and>
   fst (CacheService_get ''k'' 1000
          (CacheService_set ''k'' (7::nat) (Some 5) 1000 1000 newCacheService)) = Some 7 \<and>
   1000 + ttlMillis (Some 5) (newCacheService :: nat CacheService) < 301001 \<and>
   fst (CacheService_get ''k'' 301001
          (CacheService_set ''k'' (7::nat) (Some 5) 1000 1000 newCacheService)) = None \<and>
   cache (snd (CacheService_get ''k'' 301001
          (CacheService_set ''k'' (7::nat) (Some 5) 1000 1000 newCacheService))) ''k'' = None"
proof -
  have ttl: "ttlMillis (Some 5) (newCacheService :: nat CacheService) = 300000"
    by (simp add: ttlMillis_def truthy_def num_def)
  have a: "(1000::int) \<le> 1000 + ttlMillis (Some 5) (newCacheService :: nat CacheService)"
    by (simp add: ttl)
  have b: "1000 + ttlMillis (Some 5) (newCacheService :: nat CacheService) < 301001"
    by (simp add: ttl)
  show ?thesis
    using a b
      CacheService_set_get[of 1000 1000 "Some 5" "newCacheService :: nat CacheService" 1000 "''k''" 7]
      CacheService_set_get[of 1000 1000 "Some 5" "newCacheService :: nat CacheService" 301001 "''k''" 7]
    by blast
qed

text \<open>
  C6 as stated fails for a negative TTL: the entry is stored already expired, the sweep
  at the end of \<open>set\<close> removes it, and the \<open>get\<close> that follows at once finds nothing.
\<close>

theorem CacheService_negative_ttl_counterexample:
  "fst (CacheService_get ''k'' 1000
          (CacheService_set ''k'' (7::nat) (Some (- 1)) 1000 1000 newCacheService)) = None"
  by (simp add: CacheService_get_def CacheService_set_def cleanupExpired_def Let_def
        ttlMillis_def truthy_def num_def newCacheService_def)

subsection \<open>Conflicts\<close>

lemma calculateEventOverlap_formula:
  "calculateEventOverlap e1 e2 =
     max 0 ((min (end_ev e1) (end_ev e2) - max (start e1) (start e2)) div 60000)"
proof (cases "end_ev e1 \<le> start e2 \<or> end_ev e2 \<le> start e1")
  case True
  then have "min (end_ev e1) (end_ev e2) - max (start e1) (start e2) \<le> 0" by auto
  then have "(min (end_ev e1) (end_ev e2) - max (start e1) (start e2)) div 60000 \<le> 0"
    by (simp add: div_int_pos_iff zdiv_mono1 order.trans[OF zdiv_mono1[of _ 0 60000]])
  with True show ?thesis by (simp add: calculateEventOverlap_def Let_def)
next
  case False
  then show ?thesis by (simp add: calculateEventOverlap_def Let_def)
qed

lemma conflictsWith_props:
  "c \<in> set (conflictsWith e1 es) \<Longrightarrow>
     event1 c = e1 \<and> event2 c \<in> set es \<and> \<not> isAllDay (event1 c) \<and> \<not> isAllDay (event2 c) \<and>
     overlapMinutes c = calculateEventOverlap (event1 c) (event2 c) \<and> 0 < overlapMinutes c"
  by (induction es) (auto simp: Let_def split: if_splits)

lemma conflictPairs_props:
  "c \<in> set (conflictPairs es) \<Longrightarrow>
     \<not> isAllDay (event1 c) \<and> \<not> isAllDay (event2 c) \<and>
     overlapMinutes c = calculateEventOverlap (event1 c) (event2 c) \<and> 0 < overlapMinutes c"
  by (induction es) (auto dest: conflictsWith_props)

text \<open>
  C7. The overlap of two events does not depend on their order, and is the length of
  \<open>[max start1 start2, min end1 end2)\<close> in whole minutes, or zero when that is negative.
  Every conflict that \<open>getEventConflicts\<close> reports is between two events neither of
  which is an all-day event, and carries that overlap, the same in both orders.
\<close>

theorem calculateEventOverlap_symmetric:
  "calculateEventOverlap e1 e2 = calculateEventOverlap e2 e1 \<and>
   calculateEventOverlap e1 e2 =
     max 0 ((min (end_ev e1) (end_ev e2) - max (start e1) (start e2)) div (1000 * 60)) \<and>
   (\<forall>c \<in> set (getEventConflicts rangeResult).
      \<not> isAllDay (event1 c) \<and> \<not> isAllDay (event2 c) \<and>
      overlapMinutes c = calculateEventOverlap (event1 c) (event2 c) \<and>
      overlapMinutes c = calculateEventOverlap (event2 c) (event1 c))"
proof (intro conjI ballI)
  show s: "calculateEventOverlap e1 e2 = calculateEventOverlap e2 e1" for e1 e2
    by (simp add: calculateEventOverlap_formula min.commute max.commute)
  show "calculateEventOverlap e1 e2 =
     max 0 ((min (end_ev e1) (end_ev e2) - max (start e1) (start e2)) div (1000 * 60))"
    by (simp add: calculateEventOverlap_formula)
  fix c assume c: "c \<in> set (getEventConflicts rangeResult)"
  then have "c \<in> set (conflictPairs (projr rangeResult))"
    by (cases rangeResult) (simp_all add: getEventConflicts_def)
  from conflictPairs_props[OF this]
  show "\<not> isAllDay (event1 c)" "\<not> isAllDay (event2 c)"
    "overlapMinutes c = calculateEventOverlap (event1 c) (event2 c)"
    "overlapMinutes c = calculateEventOverlap (event2 c) (event1 c)"
    using s by simp_all
qed

theorem calculateEventOverlap_symmetric_witness:
  "\<lparr>event1 = sampleEvent, event2 = sampleOverlapping, overlapMinutes = 30\<rparr>
     \<in> set (getEventConflicts (Inr [sampleAllDay, sampleEvent, sampleOverlapping])) \<and>
   getEventConflicts (Inr [sampleAllDay, sampleEvent, sampleOverlapping]) =
     [\<lparr>event1 = sampleEvent, event2 = sampleOverlapping, overlapMinutes = 30\<rparr>] \<and>
   calculateEventOverlap sampleOverlapping sampleEvent = 30"
proof -
  have g: "getEventConflicts (Inr [sampleAllDay, sampleEvent, sampleOverlapping]) =
     [\<lparr>event1 = sampleEvent, event2 = sampleOverlapping, overlapMinutes = 30\<rparr>]"
    by code_simp
  then have h: "\<lparr>event1 = sampleEvent, event2 = sampleOverlapping, overlapMinutes = 30\<rparr>
     \<in> set (getEventConflicts (Inr [sampleAllDay, sampleEvent, sampleOverlapping]))"
    by simp
  from calculateEventOverlap_symmetric[of sampleEvent sampleOverlapping
      "Inr [sampleAllDay, sampleEvent, sampleOverlapping]"] h
  have "overlapMinutes \<lparr>event1 = sampleEvent, event2 = sampleOverlapping, overlapMinutes = 30\<rparr> =
     calculateEventOverlap
       (event2 \<lparr>event1 = sampleEvent, event2 = sampleOverlapping, overlapMinutes = 30\<rparr>)
       (event1 \<lparr>event1 = sampleEvent, event2 = sampleOverlapping, overlapMinutes = 30\<rparr>)"
    by blast
  then have "calculateEventOverlap sampleOverlapping sampleEvent = 30" by simp
  with g h show ?thesis by simp
qed

subsection \<open>Sorting with a comparator\<close>

lemma insort_by_compareStart: "insort_by compareStart x ys = insort_key start x ys"
  by (induction ys) (simp_all add: compareStart_def)

lemma sort_by_compareStart: "sort_by compareStart xs = sort_key start xs"
  by (induction xs) (simp_all add: sort_by_def sort_key_def insort_by_compareStart)

lemma set_insort_by: "set (insort_by cmp x ys) = insert x (set ys)"
  by (induction ys) auto

lemma set_sort_by: "set (sort_by cmp xs) = set xs"
  by (induction xs) (simp_all add: sort_by_def set_insort_by)

lemma length_insort_by: "length (insort_by cmp x ys) = Suc (length ys)"
  by (induction ys) auto

lemma length_sort_by: "length (sort_by cmp xs) = length xs"
  by (induction xs) (simp_all add: sort_by_def length_insort_by)

lemma sorted_wrt_insort_by:
  assumes total: "\<And>a b. cmp a b \<le> 0 \<or> cmp b a \<le> 0"
    and trans: "\<And>a b c. cmp a b \<le> 0 \<Longrightarrow> cmp b c \<le> 0 \<Longrightarrow> cmp a c \<le> 0"
  shows "sorted_wrt (\<lambda>a b. cmp a b \<le> 0) ys \<Longrightarrow> sorted_wrt (\<lambda>a b. cmp a b \<le> 0) (insort_by cmp x ys)"
proof (induction ys)
  case Nil
  then show ?case by simp
next
  case (Cons y ys)
  show ?case
  proof (cases "cmp x y \<le> 0")
    case True
    then have "\<forall>z \<in> set ys. cmp x z \<le> 0" using Cons.prems trans by auto
    then show ?thesis using True Cons.prems by simp
  next
    case False
    then have "cmp y x \<le> 0" using total by blast
    then show ?thesis using False Cons by (auto simp: set_insort_by)
  qed
qed

lemma sorted_wrt_sort_by:
  assumes total: "\<And>a b. cmp a b \<le> 0 \<or> cmp b a \<le> 0"
    and trans: "\<And>a b c. cmp a b \<le> 0 \<Longrightarrow> cmp b c \<le> 0 \<Longrightarrow> cmp a c \<le> 0"
  shows "sorted_wrt (\<lambda>a b. cmp a b \<le> 0) (sort_by cmp xs)"
proof (induction xs)
  case Nil
  then show ?case by (simp add: sort_by_def)
next
  case (Cons x xs)
  have "sort_by cmp (x # xs) = insort_by cmp x (sort_by cmp xs)" by (simp add: sort_by_def)
  then show ?case using sorted_wrt_insort_by[of cmp, OF total trans Cons] by simp
qed

lemma compareRelevance_le: "(compareRelevance q a b \<le> 0) = mayPrecede q a b"
  by (auto simp: compareRelevance_def relevance_def mayPrecede_def matches_def Let_def)

lemma sorted_sort_by_compareRelevance:
  "sorted_wrt (mayPrecede q) (sort_by (compareRelevance q) xs)"
proof -
  have "sorted_wrt (\<lambda>a b. compareRelevance q a b \<le> 0) (sort_by (compareRelevance q) xs)"
    by (rule sorted_wrt_sort_by) (auto simp: compareRelevance_le mayPrecede_def)
  then show ?thesis by (simp add: compareRelevance_le)
qed

lemma sorted_wrt_take: "sorted_wrt P xs \<Longrightarrow> sorted_wrt P (take n xs)"
  by (metis append_take_drop_id sorted_wrt_append)

subsection \<open>The fan-out of the aggregator\<close>

text \<open>A read of the cache removes at most an entry that every later read at the same
  time would treat as absent.\<close>

lemma CacheService_get_reads:
  "fst (CacheService_get key now (snd (CacheService_get key' now cs))) =
   fst (CacheService_get key now cs)"
  by (auto simp: CacheService_get_def split: option.splits)

lemma begin_reads:
  assumes "\<forall>key. fst (CacheService_get key now cs') = fst (CacheService_get key now cs)"
  shows "fst (getEventsFromSource_begin env now s k cs') = fst (getEventsFromSource_begin env now s k cs)"
    and "\<forall>key. fst (CacheService_get key now (snd (getEventsFromSource_begin env now s k cs'))) =
           fst (CacheService_get key now cs)"
proof -
  let ?key = "generateKey CACHE_EVENTS_KEY (src_id s)"
  obtain c1 cs1 where g1: "CacheService_get ?key now cs' = (c1, cs1)" by (cases "CacheService_get ?key now cs'")
  obtain c2 cs2 where g2: "CacheService_get ?key now cs = (c2, cs2)" by (cases "CacheService_get ?key now cs")
  have c: "c1 = c2" using assms g1 g2 by (metis fst_conv)
  have r1: "\<forall>key. fst (CacheService_get key now cs1) = fst (CacheService_get key now cs)"
    using CacheService_get_reads[of _ now ?key cs'] assms g1 by simp
  show "fst (getEventsFromSource_begin env now s k cs') = fst (getEventsFromSource_begin env now s k cs)"
    by (simp add: getEventsFromSource_begin_def getCachedEvents_def g1 g2 c
          split: CalendarSourceType.splits)
  show "\<forall>key. fst (CacheService_get key now (snd (getEventsFromSource_begin env now s k cs'))) =
           fst (CacheService_get key now cs)"
    using r1 assms
    by (simp add: getEventsFromSource_begin_def getCachedEvents_def g1
          split: CalendarSourceType.splits)
qed

lemma beginAll_fetches:
  "\<forall>key. fst (CacheService_get key now cs') = fst (CacheService_get key now cs) \<Longrightarrow>
   fst (beginAll env now k sources cs') =
     map (\<lambda>s. fst (getEventsFromSource_begin env now s k cs)) sources"
proof (induction sources arbitrary: cs')
  case Nil
  then show ?case by simp
next
  case (Cons s sources)
  obtain f cs1 where b: "getEventsFromSource_begin env now s k cs' = (f, cs1)"
    by (cases "getEventsFromSource_begin env now s k cs'")
  have f: "f = fst (getEventsFromSource_begin env now s k cs)"
    using begin_reads(1)[OF Cons.prems, of env s k] b by simp
  have "\<forall>key. fst (CacheService_get key now cs1) = fst (CacheService_get key now cs)"
    using begin_reads(2)[OF Cons.prems, of env s k] b by simp
  from Cons.IH[OF this] show ?case
    by (cases "beginAll env now k sources cs1") (simp add: b f)
qed

lemma end_result:
  "fst (getEventsFromSource_end env later s k f cs) = fst (getEventsFromSource_end env later' s k f cs')"
  by (simp add: getEventsFromSource_end_def Let_def split: Fetch.splits sum.splits)

lemma endAll_results:
  "fst (endAll env later k sfs cs) =
     map (\<lambda>(s, f). fst (getEventsFromSource_end env later s k f cs0)) sfs"
proof (induction sfs arbitrary: cs)
  case Nil
  then show ?case by simp
next
  case (Cons sf sfs)
  obtain s f where sf: "sf = (s, f)" by (cases sf)
  obtain r cs1 where e: "getEventsFromSource_end env later s k f cs = (r, cs1)"
    by (cases "getEventsFromSource_end env later s k f cs")
  have r: "r = fst (getEventsFromSource_end env later s k f cs0)"
    using end_result[of env later s k f cs later cs0] e by simp
  show ?case
    using Cons.IH[of cs1]
    by (cases "endAll env later k sfs cs1") (simp add: sf e r)
qed

lemma getEventsFromSource_result:
  "fst (getEventsFromSource env now later s k cs) =
     fst (getEventsFromSource_end env later s k (fst (getEventsFromSource_begin env now s k cs)) cs)"
  using end_result[of env later s k _ _ later cs]
  by (simp add: getEventsFromSource_def split: prod.splits)

lemma zip_map_same: "map g (zip xs (map h xs)) = map (\<lambda>x. g (x, h x)) xs"
  by (induction xs) simp_all

lemma fanout_results:
  assumes "\<forall>key. fst (CacheService_get key now cs1) = fst (CacheService_get key now cs)"
  shows "fst (endAll env later k (zip sources (fst (beginAll env now k sources cs1))) cs2) =
         map (\<lambda>s. fst (getEventsFromSource env now later s k cs)) sources"
  unfolding beginAll_fetches[OF assms] endAll_results[of env later k _ cs2 cs]
    zip_map_same getEventsFromSource_result
  by simp

lemma getEventsFromSources_fanout:
  assumes "cacheMiss sources maxEvents now cs"
  shows "fst (getEventsFromSources env now later sources maxEvents cs) =
     Inr (take maxEvents (sort_by compareStart (concat (map
        (\<lambda>s. caughtEvents (fst (getEventsFromSource env now later s
                 (perSourceLimit maxEvents (length sources)) cs))) sources))))"
proof -
  let ?ids = "map src_id sources"
  let ?k = "perSourceLimit maxEvents (length sources)"
  obtain c cs1 where g: "getCachedAggregatedEvents ?ids now cs = (c, cs1)"
    by (cases "getCachedAggregatedEvents ?ids now cs")
  have miss: "\<not> (c \<noteq> None \<and> length (the c) \<le> maxEvents)"
    using assms g by (auto simp: cacheMiss_def split: option.splits)
  have r: "\<forall>key. fst (CacheService_get key now cs1) = fst (CacheService_get key now cs)"
    using CacheService_get_reads[of _ now "aggregatedKey ?ids" cs] g
    by (simp add: getCachedAggregatedEvents_def)
  obtain fs cs2 where b: "beginAll env now ?k sources cs1 = (fs, cs2)"
    by (cases "beginAll env now ?k sources cs1")
  obtain rs cs3 where e: "endAll env later ?k (zip sources fs) cs2 = (rs, cs3)"
    by (cases "endAll env later ?k (zip sources fs) cs2")
  have "rs = map (\<lambda>s. fst (getEventsFromSource env now later s ?k cs)) sources"
    using fanout_results[OF r, of env later ?k sources cs2] b e by simp
  then show ?thesis
    using miss by (auto simp: getEventsFromSources_def Let_def g b e comp_def)
qed

lemma getEventsFromSources_never_throws:
  "\<exists>events. fst (getEventsFromSources env now later sources maxEvents cs) = Inr events"
  by (simp add: getEventsFromSources_def Let_def split: prod.splits)

subsection \<open>Duplicates after sorting\<close>

lemma removeDuplicatesFrom_seen:
  "dedupKey x \<in> seen \<union> dedupKey ` set us \<Longrightarrow>
   removeDuplicatesFrom seen (us @ x # vs) = removeDuplicatesFrom seen (us @ vs)"
proof (induction us arbitrary: seen)
  case Nil
  then show ?case by (simp add: Let_def)
next
  case (Cons u us)
  show ?case
  proof (cases "dedupKey u \<in> seen")
    case True
    then have "dedupKey x \<in> seen \<union> dedupKey ` set us" using Cons.prems by auto
    from Cons.IH[OF this] show ?thesis using True by (simp add: Let_def)
  next
    case False
    have "dedupKey x \<in> insert (dedupKey u) seen \<union> dedupKey ` set us" using Cons.prems by auto
    from Cons.IH[OF this] show ?thesis using False by (simp add: Let_def)
  qed
qed

lemma insort_key_split:
  "insort_key f x T = takeWhile (\<lambda>y. f y < f x) T @ x # dropWhile (\<lambda>y. f y < f x) T"
  by (induction T) auto

lemma dropWhile_sorted_ge:
  fixes f :: "'a \<Rightarrow> int"
  assumes "sorted (map f T)"
  shows "\<forall>y \<in> set (dropWhile (\<lambda>y. f y < f x) T). f x \<le> f y"
  using assms by (induction T) auto

lemma insort_key_in_prefix:
  fixes f :: "'a \<Rightarrow> int"
  shows "\<exists>y \<in> set P. f u \<le> f y \<Longrightarrow> insort_key f u (P @ R) = insort_key f u P @ R"
  by (induction P) auto

lemma insort_key_past_prefix:
  fixes f :: "'a \<Rightarrow> int"
  shows "\<forall>y \<in> set P. f y < f u \<Longrightarrow> insort_key f u (P @ R) = P @ insort_key f u R"
  by (induction P) auto

lemma insort_key_front:
  fixes f :: "'a \<Rightarrow> int"
  shows "\<forall>y \<in> set R. f u \<le> f y \<Longrightarrow> insort_key f u R = u # R"
  by (cases R) auto

lemma sort_key_redundant:
  fixes f :: "'a \<Rightarrow> int"
  shows "\<exists>P1 P2. sort_key f (U @ x # V) = P1 @ x # P2 \<and> sort_key f (U @ V) = P1 @ P2 \<and>
           (\<forall>y \<in> set P1. f y \<le> f x) \<and> (\<forall>y \<in> set P2. f x \<le> f y) \<and>
           (\<forall>u \<in> set U. f u \<le> f x \<longrightarrow> u \<in> set P1)"
proof (induction U)
  case Nil
  let ?T = "sort_key f V"
  let ?P1 = "takeWhile (\<lambda>y. f y < f x) ?T"
  let ?P2 = "dropWhile (\<lambda>y. f y < f x) ?T"
  have 1: "sort_key f ([] @ x # V) = ?P1 @ x # ?P2" by (simp add: insort_key_split)
  have 2: "sort_key f ([] @ V) = ?P1 @ ?P2" by simp
  have 3: "\<forall>y \<in> set ?P1. f y \<le> f x" by (auto dest: set_takeWhileD)
  have 4: "\<forall>y \<in> set ?P2. f x \<le> f y" by (rule dropWhile_sorted_ge) simp
  have 5: "\<forall>u \<in> set []. f u \<le> f x \<longrightarrow> u \<in> set ?P1" by simp
  show ?case
    by (rule exI[of _ ?P1], rule exI[of _ ?P2]) (intro conjI 1 2 3 4 5)
next
  case (Cons u U)
  then obtain P1 P2 where a: "sort_key f (U @ x # V) = P1 @ x # P2"
    and b: "sort_key f (U @ V) = P1 @ P2"
    and i: "\<forall>y \<in> set P1. f y \<le> f x" and ii: "\<forall>y \<in> set P2. f x \<le> f y"
    and iii: "\<forall>u \<in> set U. f u \<le> f x \<longrightarrow> u \<in> set P1" by blast
  have A: "sort_key f ((u # U) @ x # V) = insort_key f u (P1 @ x # P2)" using a by simp
  have B: "sort_key f ((u # U) @ V) = insort_key f u (P1 @ P2)" using b by simp
  show ?case
  proof (cases "\<exists>y \<in> set P1. f u \<le> f y")
    case True
    then have ux: "f u \<le> f x" using i by force
    let ?Q1 = "insort_key f u P1"
    have "sort_key f ((u # U) @ x # V) = ?Q1 @ x # P2"
      unfolding A by (rule insort_key_in_prefix[OF True])
    moreover have "sort_key f ((u # U) @ V) = ?Q1 @ P2"
      unfolding B by (rule insort_key_in_prefix[OF True])
    moreover have "\<forall>y \<in> set ?Q1. f y \<le> f x" using i ux by (auto simp: set_insort_key)
    moreover have "\<forall>u' \<in> set (u # U). f u' \<le> f x \<longrightarrow> u' \<in> set ?Q1"
      using iii by (auto simp: set_insort_key)
    ultimately show ?thesis using ii by blast
  next
    case False
    then have past: "\<forall>y \<in> set P1. f y < f u" by force
    show ?thesis
    proof (cases "f u \<le> f x")
      case True
      have "\<forall>y \<in> set P2. f u \<le> f y" using ii True by force
      then have f2: "insort_key f u P2 = u # P2" by (rule insort_key_front)
      have "insort_key f u (x # P2) = u # x # P2" using True by simp
      then have "sort_key f ((u # U) @ x # V) = (P1 @ [u]) @ x # P2"
        unfolding A insort_key_past_prefix[OF past] by simp
      moreover have "sort_key f ((u # U) @ V) = (P1 @ [u]) @ P2"
        unfolding B insort_key_past_prefix[OF past] f2 by simp
      moreover have "\<forall>y \<in> set (P1 @ [u]). f y \<le> f x" using i True by auto
      moreover have "\<forall>u' \<in> set (u # U). f u' \<le> f x \<longrightarrow> u' \<in> set (P1 @ [u])"
        using iii by auto
      ultimately show ?thesis using ii by blast
    next
      case False
      then have "insort_key f u (x # P2) = x # insort_key f u P2" by simp
      then have "sort_key f ((u # U) @ x # V) = P1 @ x # insort_key f u P2"
        unfolding A insort_key_past_prefix[OF past] by simp
      moreover have "sort_key f ((u # U) @ V) = P1 @ insort_key f u P2"
        unfolding B insort_key_past_prefix[OF past] by simp
      moreover have "\<forall>y \<in> set (insort_key f u P2). f x \<le> f y"
        using ii False by (auto simp: set_insort_key)
      moreover have "\<forall>u' \<in> set (u # U). f u' \<le> f x \<longrightarrow> u' \<in> set P1"
        using iii False by auto
      ultimately show ?thesis using i by blast
    qed
  qed
qed

lemma dedup_sort_redundant:
  assumes "x \<in> set U"
  shows "removeDuplicateEvents (sort_key start (U @ x # V)) =
         removeDuplicateEvents (sort_key start (U @ V))"
proof -
  obtain P1 P2 where a: "sort_key start (U @ x # V) = P1 @ x # P2"
    and b: "sort_key start (U @ V) = P1 @ P2"
    and iii: "\<forall>u \<in> set U. start u \<le> start x \<longrightarrow> u \<in> set P1"
    using sort_key_redundant[of start U x V] by blast
  have "x \<in> set P1" using iii assms by simp
  then have "dedupKey x \<in> {} \<union> dedupKey ` set P1" by simp
  from removeDuplicatesFrom_seen[OF this] show ?thesis
    by (simp add: removeDuplicateEvents_def a b)
qed

lemma dedup_sort_repeated:
  "set E \<subseteq> set U \<Longrightarrow>
   removeDuplicateEvents (sort_key start (U @ E @ V)) =
   removeDuplicateEvents (sort_key start (U @ V))"
proof (induction E)
  case Nil
  then show ?case by simp
next
  case (Cons x E)
  have "removeDuplicateEvents (sort_key start (U @ (x # E) @ V)) =
        removeDuplicateEvents (sort_key start (U @ x # (E @ V)))" by simp
  also have "\<dots> = removeDuplicateEvents (sort_key start (U @ (E @ V)))"
    by (rule dedup_sort_redundant) (use Cons.prems in simp)
  also have "\<dots> = removeDuplicateEvents (sort_key start (U @ V))"
    using Cons by simp
  finally show ?case .
qed

subsection \<open>Search ranking\<close>

text \<open>
  When the search is run (the query is valid and the cache holds no unexpired result
  under its key), \<open>searchEvents\<close> returns a list in the two-bucket order: no event whose
  title does not contain the query comes before one whose title does, and within each
  bucket the events are in ascending order of start.
\<close>

lemma searchEvents_ranked_on_miss:
  assumes "validateSearchQuery_isValid query"
    and "fst (getCachedSearchResults query now cs) = None"
  shows "\<exists>results. fst (searchEvents env now later sources query maxResults cs) = Inr results \<and>
           sorted_wrt (mayPrecede query) results"
proof -
  obtain cs1 where g: "getCachedSearchResults query now cs = (None, cs1)"
    using assms(2) by (cases "getCachedSearchResults query now cs") auto
  show ?thesis
    using assms(1)
    by (simp add: searchEvents_def g Let_def sorted_wrt_take sorted_sort_by_compareRelevance)
qed

text \<open>
  C9. The code at the failing input. The key of a cached search result is the query in
  lower case and trimmed (\<open>getCachedSearchResults\<close>, \<open>setCachedSearchResults\<close>), but the
  comparator of \<open>searchEvents\<close> matches the titles against the query in lower case, not
  trimmed. The SharePoint search returns the event titled Sync (09:00) and the all-day
  event titled Holiday (00:00 of the same day). A search for \<open>" sync"\<close> (with a leading
  blank, a valid query) finds no title that contains it, orders its results by start
  alone and caches them under \<open>sync\<close>. The search for \<open>"sync"\<close> one second later is
  answered from the cache: Holiday, whose title does not contain \<open>sync\<close>, comes before
  Sync, whose title does. The same search on an empty cache returns Sync first.
\<close>

theorem searchEvents_trimmed_key_hit:
  "validateSearchQuery_isValid '' sync'' \<and> validateSearchQuery_isValid ''sync'' \<and>
   fst (searchEvents sampleServices 0 0 [sourceA, sourceB] '' sync'' 50 newCacheService) =
     Inr [sampleAllDay, sampleEvent] \<and>
   fst (searchEvents sampleServices 1000 1000 [sourceA, sourceB] ''sync'' 50
          (snd (searchEvents sampleServices 0 0 [sourceA, sourceB] '' sync'' 50 newCacheService))) =
     Inr [sampleAllDay, sampleEvent] \<and>
   \<not> matches ''sync'' sampleAllDay \<and> matches ''sync'' sampleEvent \<and>
   fst (searchEvents sampleServices 1000 1000 [sourceA, sourceB] ''sync'' 50 newCacheService) =
     Inr [sampleEvent, sampleAllDay]"
  by code_simp

subsection \<open>Failing sources\<close>

lemma concat_caught:
  "concat (map (\<lambda>s. caughtEvents (r s)) (filter (\<lambda>s. \<not> isl (r s)) sources)) =
   concat (map (\<lambda>s. caughtEvents (r s)) sources)"
  by (induction sources) (auto simp: caughtEvents_def split: sum.splits)

lemma concat_all_caught:
  "\<forall>s \<in> set sources. isl (r s) \<Longrightarrow> concat (map (\<lambda>s. caughtEvents (r s)) sources) = []"
  by (induction sources) (auto simp: caughtEvents_def split: sum.splits)

lemma getEventsFromSources_merge:
  assumes "cacheMiss sources maxEvents now cs"
  shows "fst (getEventsFromSources env now later sources maxEvents cs) =
     Inr (take maxEvents (sort_by compareStart (concat (map
        (contribution env now later (perSourceLimit maxEvents (length sources)) cs) sources))))"
  using getEventsFromSources_fanout[OF assms, of env later]
  by (simp add: contribution_def[abs_def])

text \<open>
  C2. The aggregate call never throws: it returns a list for every list of sources, every
  cache and every behaviour of the backends. When it queries its sources, a source whose
  fetch throws contributes nothing: the result is the merge (sorted by start, cut to
  \<open>maxEvents\<close>) of what the other sources' fetches returned, as if the failing sources
  were left out of the merge; so with three sources of which one throws it is the merge
  of the events of the other two, and when every fetch throws it is the empty list.
\<close>

theorem getEventsFromSources_tolerates_failures:
  "(\<exists>events. fst (getEventsFromSources env now later sources maxEvents cs) = Inr events) \<and>
   (cacheMiss sources maxEvents now cs \<longrightarrow>
      fst (getEventsFromSources env now later sources maxEvents cs) =
        Inr (take maxEvents (sort_by compareStart (concat (map
          (contribution env now later (perSourceLimit maxEvents (length sources)) cs)
          (filter (\<lambda>s. \<not> isl (fst (getEventsFromSource env now later s
                                   (perSourceLimit maxEvents (length sources)) cs)))
             sources))))) \<and>
      ((\<forall>s \<in> set sources. isl (fst (getEventsFromSource env now later s
                                   (perSourceLimit maxEvents (length sources)) cs))) \<longrightarrow>
         fst (getEventsFromSources env now later sources maxEvents cs) = Inr []))"
proof (intro conjI impI)
  show "\<exists>events. fst (getEventsFromSources env now later sources maxEvents cs) = Inr events"
    by (rule getEventsFromSources_never_throws)
next
  assume m: "cacheMiss sources maxEvents now cs"
  let ?k = "perSourceLimit maxEvents (length sources)"
  let ?r = "\<lambda>s. fst (getEventsFromSource env now later s ?k cs)"
  have c: "contribution env now later ?k cs = (\<lambda>s. caughtEvents (?r s))"
    by (simp add: contribution_def[abs_def])
  show "fst (getEventsFromSources env now later sources maxEvents cs) =
        Inr (take maxEvents (sort_by compareStart (concat (map
          (contribution env now later ?k cs) (filter (\<lambda>s. \<not> isl (?r s)) sources)))))"
    unfolding getEventsFromSources_merge[OF m] c concat_caught[of ?r sources] ..
  assume "\<forall>s \<in> set sources. isl (?r s)"
  then have "concat (map (\<lambda>s. caughtEvents (?r s)) sources) = []"
    by (rule concat_all_caught)
  then show "fst (getEventsFromSources env now later sources maxEvents cs) = Inr []"
    unfolding getEventsFromSources_merge[OF m] c by (simp only: sort_by_def foldr.simps id_apply take_Nil)
qed

theorem getEventsFromSources_tolerates_failures_witness:
  "cacheMiss [sourceA, sourceC, sourceB] 1000 0 newCacheService \<and>
   isl (fst (getEventsFromSource sampleServices 0 0 sourceC 334 newCacheService)) \<and>
   fst (getEventsFromSources sampleServices 0 0 [sourceA, sourceC, sourceB] 1000 newCacheService) =
     Inr (take 1000 (sort_by compareStart
            (contribution sampleServices 0 0 334 newCacheService sourceA @
             contribution sampleServices 0 0 334 newCacheService sourceB))) \<and>
   fst (getEventsFromSources sampleServices 0 0 [sourceA, sourceC, sourceB] 1000 newCacheService) =
     Inr [sampleEvent, sampleOverlapping\<lparr>calendarTitle := ''Board'', calendarType := Exchange\<rparr>,
          sampleLater] \<and>
   fst (getEventsFromSources sampleServices 0 0 [sourceC, sourceC] 1000 newCacheService) = Inr []"
proof -
  let ?S = "[sourceA, sourceC, sourceB]"
  have m: "cacheMiss ?S 1000 0 newCacheService" by code_simp
  have k: "perSourceLimit 1000 (length ?S) = 334" by code_simp
  have a: "\<not> isl (fst (getEventsFromSource sampleServices 0 0 sourceA 334 newCacheService))"
    by code_simp
  have b: "\<not> isl (fst (getEventsFromSource sampleServices 0 0 sourceB 334 newCacheService))"
    by code_simp
  have c: "isl (fst (getEventsFromSource sampleServices 0 0 sourceC 334 newCacheService))"
    by code_simp
  have f: "filter (\<lambda>s. \<not> isl (fst (getEventsFromSource sampleServices 0 0 s 334 newCacheService))) ?S
      = [sourceA, sourceB]"
    using a b c by simp
  from getEventsFromSources_tolerates_failures[of sampleServices 0 0 ?S 1000 newCacheService] m
  have r: "fst (getEventsFromSources sampleServices 0 0 ?S 1000 newCacheService) =
     Inr (take 1000 (sort_by compareStart
            (contribution sampleServices 0 0 334 newCacheService sourceA @
             contribution sampleServices 0 0 334 newCacheService sourceB)))"
    unfolding k f by simp
  have v: "take 1000 (sort_by compareStart
            (contribution sampleServices 0 0 334 newCacheService sourceA @
             contribution sampleServices 0 0 334 newCacheService sourceB)) =
     [sampleEvent, sampleOverlapping\<lparr>calendarTitle := ''Board'', calendarType := Exchange\<rparr>,
      sampleLater]"
    by code_simp
  have n: "fst (getEventsFromSources sampleServices 0 0 [sourceC, sourceC] 1000 newCacheService)
      = Inr []"
    by code_simp
  from m c r v n show ?thesis by simp
qed

subsection \<open>A source referenced twice\<close>

lemma take_all_sort_by: "length xs \<le> n \<Longrightarrow> take n (sort_by cmp xs) = sort_by cmp xs"
  by (simp add: length_sort_by)

text \<open>
  C1, as amended. Take a list of sources in which \<open>s\<close> is referenced a second time,
  \<open>pre @ [s] @ mid @ [s] @ post\<close>, and the list without the second reference,
  \<open>pre @ [s] @ mid @ post\<close>. When both calls query their sources, every source
  contributes the same events under the per-source limits of the two calls
  (\<open>ceil(maxEvents / n)\<close> for \<open>n\<close> sources), and the merged events of the longer list are
  at most \<open>maxEvents\<close>, then removing the duplicates (\<open>removeDuplicateEvents\<close>) from
  what \<open>getEventsFromSources\<close> returns for the one list gives the same events as
  removing them from what it returns for the other.
\<close>

theorem getEventsFromSources_repeated_source:
  assumes "cacheMiss (pre @ [s] @ mid @ [s] @ post) maxEvents now cs"
    and "cacheMiss (pre @ [s] @ mid @ post) maxEvents now cs"
    and "\<forall>t \<in> set (pre @ [s] @ mid @ post).
           contribution env now later
             (perSourceLimit maxEvents (length (pre @ [s] @ mid @ [s] @ post))) cs t =
           contribution env now later
             (perSourceLimit maxEvents (length (pre @ [s] @ mid @ post))) cs t"
    and "length (concat (map (contribution env now later
             (perSourceLimit maxEvents (length (pre @ [s] @ mid @ [s] @ post))) cs)
           (pre @ [s] @ mid @ [s] @ post))) \<le> maxEvents"
  shows "\<exists>twice once.
           fst (getEventsFromSources env now later (pre @ [s] @ mid @ [s] @ post) maxEvents cs)
             = Inr twice \<and>
           fst (getEventsFromSources env now later (pre @ [s] @ mid @ post) maxEvents cs)
             = Inr once \<and>
           removeDuplicateEvents twice = removeDuplicateEvents once"
proof -
  let ?k2 = "perSourceLimit maxEvents (length (pre @ [s] @ mid @ [s] @ post))"
  let ?k1 = "perSourceLimit maxEvents (length (pre @ [s] @ mid @ post))"
  let ?c = "contribution env now later ?k2 cs"
  let ?A = "concat (map ?c pre)"
  let ?E = "?c s"
  let ?B = "concat (map ?c mid)"
  let ?C = "concat (map ?c post)"
  have same: "map (contribution env now later ?k1 cs) (pre @ [s] @ mid @ post) =
              map ?c (pre @ [s] @ mid @ post)"
  proof (rule map_cong[OF refl])
    fix t assume "t \<in> set (pre @ [s] @ mid @ post)"
    with assms(3) have "?c t = contribution env now later ?k1 cs t" by blast
    then show "contribution env now later ?k1 cs t = ?c t" by (rule sym)
  qed
  have m2: "concat (map ?c (pre @ [s] @ mid @ [s] @ post)) = (?A @ ?E @ ?B) @ ?E @ ?C"
    by simp
  have m1: "concat (map (contribution env now later ?k1 cs) (pre @ [s] @ mid @ post)) =
            (?A @ ?E @ ?B) @ ?C"
    unfolding same by simp
  have l2: "length ((?A @ ?E @ ?B) @ ?E @ ?C) \<le> maxEvents" using assms(4) unfolding m2 .
  then have l1: "length ((?A @ ?E @ ?B) @ ?C) \<le> maxEvents" by simp
  have r2: "fst (getEventsFromSources env now later (pre @ [s] @ mid @ [s] @ post) maxEvents cs)
      = Inr (sort_key start ((?A @ ?E @ ?B) @ ?E @ ?C))"
    unfolding getEventsFromSources_merge[OF assms(1)] m2
    using take_all_sort_by[OF l2, of compareStart] by (simp only: sort_by_compareStart)
  have r1: "fst (getEventsFromSources env now later (pre @ [s] @ mid @ post) maxEvents cs)
      = Inr (sort_key start ((?A @ ?E @ ?B) @ ?C))"
    unfolding getEventsFromSources_merge[OF assms(2)] m1
    using take_all_sort_by[OF l1, of compareStart] by (simp only: sort_by_compareStart)
  have "removeDuplicateEvents (sort_key start ((?A @ ?E @ ?B) @ ?E @ ?C)) =
        removeDuplicateEvents (sort_key start ((?A @ ?E @ ?B) @ ?C))"
    by (rule dedup_sort_repeated) auto
  with r2 r1 show ?thesis by blast
qed

theorem getEventsFromSources_repeated_source_witness:
  "cacheMiss [sourceA, sourceB, sourceA] 1000 0 newCacheService \<and>
   cacheMiss [sourceA, sourceB] 1000 0 newCacheService \<and>
   fst (getEventsFromSources sampleServices 0 0 [sourceA, sourceB, sourceA] 1000 newCacheService) =
     Inr [sampleEvent, sampleEvent,
          sampleOverlapping\<lparr>calendarTitle := ''Board'', calendarType := Exchange\<rparr>,
          sampleLater, sampleLater] \<and>
   fst (getEventsFromSources sampleServices 0 0 [sourceA, sourceB] 1000 newCacheService) =
     Inr [sampleEvent,
          sampleOverlapping\<lparr>calendarTitle := ''Board'', calendarType := Exchange\<rparr>,
          sampleLater] \<and>
   removeDuplicateEvents [sampleEvent, sampleEvent,
          sampleOverlapping\<lparr>calendarTitle := ''Board'', calendarType := Exchange\<rparr>,
          sampleLater, sampleLater] =
   removeDuplicateEvents [sampleEvent,
          sampleOverlapping\<lparr>calendarTitle := ''Board'', calendarType := Exchange\<rparr>,
          sampleLater]"
proof -
  let ?cs = "newCacheService :: ICalendarEvent list CacheService"
  let ?two = "[] @ [sourceA] @ [sourceB] @ [sourceA] @ []"
  let ?one = "[] @ [sourceA] @ [sourceB] @ []"
  have h1: "cacheMiss ?two 1000 0 ?cs" by code_simp
  have h2: "cacheMiss ?one 1000 0 ?cs" by code_simp
  have h3: "\<forall>t \<in> set ?one.
           contribution sampleServices 0 0 (perSourceLimit 1000 (length ?two)) ?cs t =
           contribution sampleServices 0 0 (perSourceLimit 1000 (length ?one)) ?cs t"
    by code_simp
  have h4: "length (concat (map (contribution sampleServices 0 0
             (perSourceLimit 1000 (length ?two)) ?cs) ?two)) \<le> 1000"
    by code_simp
  have r2: "fst (getEventsFromSources sampleServices 0 0 ?two 1000 ?cs) =
     Inr [sampleEvent, sampleEvent,
          sampleOverlapping\<lparr>calendarTitle := ''Board'', calendarType := Exchange\<rparr>,
          sampleLater, sampleLater]"
    by code_simp
  have r1: "fst (getEventsFromSources sampleServices 0 0 ?one 1000 ?cs) =
     Inr [sampleEvent,
          sampleOverlapping\<lparr>calendarTitle := ''Board'', calendarType := Exchange\<rparr>,
          sampleLater]"
    by code_simp
  from getEventsFromSources_repeated_source[OF h1 h2 h3 h4]
  have "removeDuplicateEvents [sampleEvent, sampleEvent,
          sampleOverlapping\<lparr>calendarTitle := ''Board'', calendarType := Exchange\<rparr>,
          sampleLater, sampleLater] =
   removeDuplicateEvents [sampleEvent,
          sampleOverlapping\<lparr>calendarTitle := ''Board'', calendarType := Exchange\<rparr>,
          sampleLater]"
    unfolding r2 r1 by simp
  with h1 h2 r2 r1 show ?thesis by simp
qed

text \<open>
  C1 as stated fails. \<open>getEventsFromSources\<close> does not remove duplicates, and the limit of
  each fetch depends on the number of references: with \<open>maxEvents = 2\<close>, the list that
  references the calendar twice fetches one event per reference and returns the first
  event twice, while the list that references it once returns both events of the
  calendar. The two outputs differ, and they still differ after \<open>removeDuplicateEvents\<close>.
\<close>

theorem getEventsFromSources_repeated_source_counterexample:
  "fst (getEventsFromSources sampleServices 0 0 [sourceA, sourceA] 2 newCacheService) =
     Inr [sampleEvent, sampleEvent] \<and>
   fst (getEventsFromSources sampleServices 0 0 [sourceA] 2 newCacheService) =
     Inr [sampleEvent, sampleLater] \<and>
   removeDuplicateEvents [sampleEvent, sampleEvent] = [sampleEvent] \<and>
   removeDuplicateEvents [sampleEvent, sampleLater] = [sampleEvent, sampleLater]"
  by code_simp

end
